theory Spec2Isabelle
  imports Complex_Main "HOL-Library.Sublist"
begin

section \<open>Text\<close>

text \<open>
  Python strings are modelled as \<^typ>\<open>string\<close>; a character stands for the code point
  of the same number, so the model covers text over the code points 0 to 255.
  \<open>isspace\<close> is the whitespace test shared by \<open>str.strip()\<close> and the class \<open>\s\<close> of
  \<open>re\<close> on \<open>str\<close> patterns: in this range the code points 9 to 13, 28 to 32, 133 and 160.
\<close>

definition isspace :: "char \<Rightarrow> bool" where
  "isspace c = (of_char c \<in> {9, 10, 11, 12, 13, 28, 29, 30, 31, 32, 133, 160 :: nat})"

definition lstrip :: "string \<Rightarrow> string" where
  "lstrip s = dropWhile isspace s"

definition rstrip :: "string \<Rightarrow> string" where
  "rstrip s = rev (dropWhile isspace (rev s))"

definition strip :: "string \<Rightarrow> string" where
  "strip s = rstrip (lstrip s)"

text \<open>\<open>s.rstrip(':')\<close>: the trailing colons are removed.\<close>

definition rstrip_colon :: "string \<Rightarrow> string" where
  "rstrip_colon s = rev (dropWhile (\<lambda>c. c = CHR '':'') (rev s))"

text \<open>\<open>s.split('\n')\<close>: the pieces between line feeds; never the empty list.\<close>

fun split_nl :: "string \<Rightarrow> string list" where
  "split_nl [] = [[]]"
| "split_nl (c # cs) =
     (if c = CHR 0x0A then [] # split_nl cs
      else (case split_nl cs of [] \<Rightarrow> [[c]] | l # ls \<Rightarrow> (c # l) # ls))"

text \<open>
  The lower case of a code point below 256, as \<open>re.IGNORECASE\<close> compares characters:
  \<open>A\<close> to \<open>Z\<close> and the capital letters 192 to 222 (but the sign 215) move up by 32.
\<close>

definition lower :: "char \<Rightarrow> char" where
  "lower c =
     (let n = (of_char c :: nat) in
      if (65 \<le> n \<and> n \<le> 90) \<or> (192 \<le> n \<and> n \<le> 222 \<and> n \<noteq> 215)
      then char_of (n + 32) else c)"

section \<open>Regular expressions\<close>

text \<open>
  The two patterns of the program use literals, character sets, the dot, a greedy
  repetition of one character with a lower bound, two groups and the anchor \<open>$\<close>.
  A pattern is kept as the sequence of these items, a group as a pair of marks around
  its items (mark \<open>2k-2\<close> opens group \<open>k\<close>, mark \<open>2k-1\<close> closes it).
\<close>

datatype setitem = SChar char | SRange char char | SSpace

datatype atom =
    Lit char
  | LitI char
  | Dot
  | InSet "setitem list"
  | NotInSet "setitem list"

datatype item = One atom | Many atom nat | Mark nat | Eol

fun setitem_ok :: "setitem \<Rightarrow> char \<Rightarrow> bool" where
  "setitem_ok (SChar a) c = (c = a)"
| "setitem_ok (SRange a b) c = ((of_char a :: nat) \<le> of_char c \<and> (of_char c :: nat) \<le> of_char b)"
| "setitem_ok SSpace c = isspace c"

text \<open>The dot matches every character but the line feed (no \<open>DOTALL\<close>).\<close>

fun atom_ok :: "atom \<Rightarrow> char \<Rightarrow> bool" where
  "atom_ok (Lit a) c = (c = a)"
| "atom_ok (LitI a) c = (lower c = lower a)"
| "atom_ok Dot c = (c \<noteq> CHR 0x0A)"
| "atom_ok (InSet is) c = list_ex (\<lambda>i. setitem_ok i c) is"
| "atom_ok (NotInSet is) c = (\<not> list_ex (\<lambda>i. setitem_ok i c) is)"

text \<open>
  \<open>match_here items pos rest mk\<close> matches the items at position \<open>pos\<close>, where \<open>rest\<close> is
  the text from \<open>pos\<close> on, and returns the marks and the end of the match. A greedy
  repetition takes the longest run first and gives characters back one at a time
  (\<open>give_back\<close>), down to its lower bound; the first length that lets the remaining
  items match wins. \<open>$\<close> holds at the end of the text and before a line feed that ends it.
\<close>

fun match_here :: "item list \<Rightarrow> nat \<Rightarrow> string \<Rightarrow> (nat \<Rightarrow> nat) \<Rightarrow> ((nat \<Rightarrow> nat) \<times> nat) option"
  and give_back :: "item list \<Rightarrow> nat \<Rightarrow> string \<Rightarrow> (nat \<Rightarrow> nat) \<Rightarrow> nat \<Rightarrow> nat \<Rightarrow> ((nat \<Rightarrow> nat) \<times> nat) option"
where
  "match_here [] pos rest mk = Some (mk, pos)"
| "match_here (One a # its) pos rest mk =
     (case rest of
        [] \<Rightarrow> None
      | c # cs \<Rightarrow> if atom_ok a c then match_here its (Suc pos) cs mk else None)"
| "match_here (Many a n # its) pos rest mk =
     give_back its pos rest mk n (length (takeWhile (atom_ok a) rest))"
| "match_here (Mark k # its) pos rest mk = match_here its pos rest (mk(k := pos))"
| "match_here (Eol # its) pos rest mk =
     (if rest = [] \<or> rest = [CHR 0x0A] then match_here its pos rest mk else None)"
| "give_back its pos rest mk n j =
     (if j < n then None
      else (case match_here its (pos + j) (drop j rest) mk of
              Some r \<Rightarrow> Some r
            | None \<Rightarrow> if j = 0 then None else give_back its pos rest mk n (j - 1)))"

declare give_back.simps [simp del]

text \<open>
  \<open>pattern.search(text)\<close>: the start positions are tried from the left, the end of the
  text included; the result is the start, the end and the marks of the first match.
\<close>

record match =
  m_start :: nat
  m_end :: nat
  m_marks :: "nat \<Rightarrow> nat"

fun search_from :: "item list \<Rightarrow> nat \<Rightarrow> string \<Rightarrow> match option" where
  "search_from items s [] =
     (case match_here items s [] (\<lambda>_. 0) of
        Some (mk, e) \<Rightarrow> Some \<lparr>m_start = s, m_end = e, m_marks = mk\<rparr>
      | None \<Rightarrow> None)"
| "search_from items s (c # cs) =
     (case match_here items s (c # cs) (\<lambda>_. 0) of
        Some (mk, e) \<Rightarrow> Some \<lparr>m_start = s, m_end = e, m_marks = mk\<rparr>
      | None \<Rightarrow> search_from items (Suc s) cs)"

definition re_search :: "item list \<Rightarrow> string \<Rightarrow> match option" where
  "re_search items text = search_from items 0 text"

text \<open>\<open>m.group(k)\<close> for \<open>k \<ge> 1\<close>, and \<open>m.group(0)\<close>, read from the searched text.\<close>

definition slice :: "string \<Rightarrow> nat \<Rightarrow> nat \<Rightarrow> string" where
  "slice text i j = take (j - i) (drop i text)"

definition group_of :: "string \<Rightarrow> match \<Rightarrow> nat \<Rightarrow> string" where
  "group_of text m k =
     (if k = 0 then slice text (m_start m) (m_end m)
      else slice text (m_marks m (2 * k - 2)) (m_marks m (2 * k - 1)))"

text \<open>
  \<open>CRED_PATTERN = re.compile(r'([^/:\s]+@[^/:\s]+\.[a-zA-Z]{2,}):(.+)$')\<close>
\<close>

definition CRED_PATTERN :: "item list" where
  "CRED_PATTERN =
     [Mark 0,
        Many (NotInSet [SChar CHR ''/'', SChar CHR '':'', SSpace]) 1,
        One (Lit CHR ''@''),
        Many (NotInSet [SChar CHR ''/'', SChar CHR '':'', SSpace]) 1,
        One (Lit CHR ''.''),
        Many (InSet [SRange CHR ''a'' CHR ''z'', SRange CHR ''A'' CHR ''Z'']) 2,
      Mark 1,
      One (Lit CHR '':''),
      Mark 2,
        Many Dot 1,
      Mark 3,
      Eol]"

text \<open>
  \<open>re.search(re.escape(target), line, re.IGNORECASE)\<close>: the escaped target is the
  sequence of its characters as literals, compared without regard to case.
\<close>

definition target_pattern :: "string \<Rightarrow> item list" where
  "target_pattern target = map (\<lambda>c. One (LitI c)) target"

section \<open>Documents, credential records and the run's state\<close>

text \<open>
  A document record of the search service is a dictionary; a key may be missing.
  \<open>ltype\<close> is the key \<open>type\<close>.
\<close>

record leak =
  name :: "string option"
  ltype :: "int option"
  media :: "int option"
  storageid :: "string option"
  bucket :: "string option"

record cred =
  url :: string
  email :: string
  password :: string
  source :: string
  raw :: string

datatype exn =
    KeyError string
  | TypeError
  | AttributeError
  | JSONDecodeError
  | ServiceError string

datatype level = DEBUG | INFO | WARNING | ERROR

text \<open>
  What the run does to the world, from the resume step on, is kept as a trace: the
  \<open>FILE_VIEW\<close> calls with their arguments, the calls of \<open>time.sleep\<close> with their delay
  (\<open>0.5\<close> is the rational \<open>1 / 2\<close>), and the log records with their level and the fixed
  part of their message.
\<close>

type_synonym fv_args = "int \<times> int \<times> string \<times> string"

datatype event = FileView fv_args | Sleep rat | Log level string

text \<open>
  The fetch operation of the search service: the outcome of its \<open>n\<close>-th call of the run,
  given the arguments, is an exception or the text of the document.
\<close>

type_synonym upstream = "nat \<Rightarrow> fv_args \<Rightarrow> exn + string"

record state =
  calls :: nat
  trace :: "event list"
  seen :: "string set"
  new_creds :: "cred list"

definition MAX_RETRIES :: int where
  "MAX_RETRIES = 3"

definition RETRY_DELAY :: int where
  "RETRY_DELAY = 2"

definition REQUEST_DELAY :: rat where
  "REQUEST_DELAY = 1 / 2"

definition log_at :: "level \<Rightarrow> string \<Rightarrow> state \<Rightarrow> state" where
  "log_at lv msg st = st\<lparr>trace := trace st @ [Log lv msg]\<rparr>"

definition sleep :: "rat \<Rightarrow> state \<Rightarrow> state" where
  "sleep d st = st\<lparr>trace := trace st @ [Sleep d]\<rparr>"

section \<open>Fetch with retries\<close>

text \<open>
  One attempt: \<open>ix.FILE_VIEW(leak['type'], leak['media'], leak['storageid'], leak['bucket'])\<close>.
  The four subscripts are evaluated first, in this order, and a missing key raises
  \<open>KeyError\<close> before the service is called.
\<close>

definition FILE_VIEW :: "upstream \<Rightarrow> leak \<Rightarrow> state \<Rightarrow> (exn + string) \<times> state" where
  "FILE_VIEW ix leak st =
     (case ltype leak of
        None \<Rightarrow> (Inl (KeyError ''type''), st)
      | Some t \<Rightarrow>
     (case media leak of
        None \<Rightarrow> (Inl (KeyError ''media''), st)
      | Some m \<Rightarrow>
     (case storageid leak of
        None \<Rightarrow> (Inl (KeyError ''storageid''), st)
      | Some sid \<Rightarrow>
     (case bucket leak of
        None \<Rightarrow> (Inl (KeyError ''bucket''), st)
      | Some b \<Rightarrow>
          (ix (calls st) (t, m, sid, b),
           st\<lparr>calls := Suc (calls st), trace := trace st @ [FileView (t, m, sid, b)]\<rparr>)))))"

text \<open>
  The loop \<open>for attempt in range(1, max_retries + 1)\<close> of \<open>file_view_with_retry\<close>, from
  the attempt \<open>attempt\<close> on with the current \<open>delay\<close>. When the range is exhausted
  without an attempt the function returns the empty string.
\<close>

function retry_loop ::
  "upstream \<Rightarrow> leak \<Rightarrow> int \<Rightarrow> int \<Rightarrow> int \<Rightarrow> state \<Rightarrow> (exn + string) \<times> state" where
  "retry_loop ix leak max_retries attempt delay st =
     (if max_retries < attempt then (Inr [], st)
      else (case FILE_VIEW ix leak st of
              (Inr contents, st') \<Rightarrow> (Inr contents, st')
            | (Inl e, st') \<Rightarrow>
                if attempt = max_retries then (Inl e, st')
                else retry_loop ix leak max_retries (attempt + 1) (delay * 2)
                       (sleep (of_int delay) (log_at WARNING ''FILE_VIEW attempt failed'' st'))))"
  by pat_completeness auto
termination
  by (relation "measure (\<lambda>(ix, leak, max_retries, attempt, delay, st). nat (max_retries + 1 - attempt))")
     auto

declare retry_loop.simps [simp del]

definition file_view_with_retry ::
  "upstream \<Rightarrow> leak \<Rightarrow> int \<Rightarrow> state \<Rightarrow> (exn + string) \<times> state" where
  "file_view_with_retry ix leak max_retries st =
     retry_loop ix leak max_retries 1 RETRY_DELAY st"

section \<open>Extraction\<close>

text \<open>The dedup key \<open>f"{email}:{password}"\<close>.\<close>

definition cred_key :: "string \<Rightarrow> string \<Rightarrow> string" where
  "cred_key e p = e @ '':'' @ p"

definition key_of :: "cred \<Rightarrow> string" where
  "key_of c = cred_key (email c) (password c)"

text \<open>
  What one line of a document yields before the dedup store is asked: nothing when the
  target does not occur in the line, a skip when the stripped line has no credential,
  and otherwise the record built from the match.
\<close>

datatype candidate = NoTarget | NoPattern string | Candidate cred

definition candidate_of :: "string \<Rightarrow> string \<Rightarrow> string \<Rightarrow> candidate" where
  "candidate_of target src line =
     (if re_search (target_pattern target) line = None then NoTarget
      else
        let line_stripped = strip line in
        (case re_search CRED_PATTERN line_stripped of
           None \<Rightarrow> NoPattern line_stripped
         | Some cred_match \<Rightarrow>
             let url_part = strip (rstrip_colon (take (m_start cred_match) line_stripped)) in
             Candidate \<lparr>url = url_part,
                        email = group_of line_stripped cred_match 1,
                        password = group_of line_stripped cred_match 2,
                        source = src,
                        raw = line_stripped\<rparr>))"

definition process_line :: "string \<Rightarrow> string \<Rightarrow> string \<Rightarrow> state \<Rightarrow> state" where
  "process_line target src line st =
     (case candidate_of target src line of
        NoTarget \<Rightarrow> st
      | NoPattern l \<Rightarrow> log_at DEBUG ''Skipped (no valid credential pattern)'' st
      | Candidate c \<Rightarrow>
          if key_of c \<in> seen st then log_at DEBUG ''Duplicate skipped'' st
          else log_at INFO ''Found''
                 (st\<lparr>seen := insert (key_of c) (seen st), new_creds := new_creds st @ [c]\<rparr>))"

text \<open>\<open>leak.get('name', 'unknown')\<close>\<close>

definition source_of :: "leak \<Rightarrow> string" where
  "source_of leak = (case name leak of None \<Rightarrow> ''unknown'' | Some n \<Rightarrow> n)"

section \<open>The loop over the documents\<close>

text \<open>
  The body of \<open>for i, leak in enumerate(results)\<close>, with \<open>n = len(results)\<close>. An exception
  in the \<open>try\<close> block (the missing key \<open>name\<close>, the fetch that failed on its last attempt)
  is logged and followed by \<open>continue\<close>, which leaves the body before the rate limiting
  sleep.
\<close>

definition process_leak :: "upstream \<Rightarrow> string \<Rightarrow> nat \<Rightarrow> nat \<Rightarrow> leak \<Rightarrow> state \<Rightarrow> state" where
  "process_leak ix target n i leak st =
     (case name leak of
        None \<Rightarrow> log_at ERROR ''Error processing leak'' st
      | Some _ \<Rightarrow>
          (case file_view_with_retry ix leak MAX_RETRIES (log_at DEBUG ''Processing leak'' st) of
             (Inl e, st') \<Rightarrow> log_at ERROR ''Error processing leak'' st'
           | (Inr contents, st') \<Rightarrow>
               let st'' = fold (process_line target (source_of leak)) (split_nl contents) st' in
               if int i < int n - 1 then sleep REQUEST_DELAY st'' else st''))"

fun process_from :: "upstream \<Rightarrow> string \<Rightarrow> nat \<Rightarrow> nat \<Rightarrow> leak list \<Rightarrow> state \<Rightarrow> state" where
  "process_from ix target n i [] st = st"
| "process_from ix target n i (leak # rest) st =
     process_from ix target n (Suc i) rest (process_leak ix target n i leak st)"

definition process_leaks :: "upstream \<Rightarrow> string \<Rightarrow> leak list \<Rightarrow> state \<Rightarrow> state" where
  "process_leaks ix target results st = process_from ix target (length results) 0 results st"

section \<open>Aggregation of the search results\<close>

definition BUCKETS :: "string list" where
  "BUCKETS = [''leaks.private'', ''leaks.public'', ''leaks.private.li'', ''pastes'']"

text \<open>
  \<open>search_terms\<close>: the target, and with \<open>--email\<close> the target behind an \<open>@\<close> unless it
  starts with one.
\<close>

definition search_terms :: "bool \<Rightarrow> string \<Rightarrow> string list" where
  "search_terms email_flag target =
     (if email_flag
      then [target, (case target of c # cs \<Rightarrow> if c = CHR ''@'' then target else CHR ''@'' # target
                                  | [] \<Rightarrow> [CHR ''@''])]
      else [target])"

text \<open>
  The search operation of the service, per term and bucket: an exception, or the list
  under \<open>records\<close> of its answer.
\<close>

type_synonym search = "string \<Rightarrow> string \<Rightarrow> exn + leak list"

text \<open>\<open>if sid and sid not in seen_ids\<close>: a missing and an empty identifier are false.\<close>

definition truthy :: "string option \<Rightarrow> bool" where
  "truthy sid = (case sid of None \<Rightarrow> False | Some s \<Rightarrow> s \<noteq> [])"

definition add_record :: "leak \<Rightarrow> string option set \<times> leak list \<Rightarrow> string option set \<times> leak list" where
  "add_record r acc =
     (case acc of (seen_ids, all_results) \<Rightarrow>
        if truthy (storageid r) \<and> storageid r \<notin> seen_ids
        then (insert (storageid r) seen_ids, all_results @ [r])
        else (seen_ids, all_results))"

text \<open>
  One query result: a failed query adds nothing (it is skipped by \<open>continue\<close>), the
  records of the others are added in their order.
\<close>

definition add_query :: "exn + leak list \<Rightarrow> string option set \<times> leak list \<Rightarrow> string option set \<times> leak list" where
  "add_query q acc = (case q of Inl e \<Rightarrow> acc | Inr records \<Rightarrow> fold add_record records acc)"

definition aggregate :: "(exn + leak list) list \<Rightarrow> leak list" where
  "aggregate qs = snd (fold add_query qs ({}, []))"

text \<open>The queries in the order of the two nested loops: terms outside, buckets inside.\<close>

definition queries :: "search \<Rightarrow> string list \<Rightarrow> (exn + leak list) list" where
  "queries srch terms = concat (map (\<lambda>term. map (\<lambda>b. srch term b) BUCKETS) terms)"

definition all_results :: "search \<Rightarrow> bool \<Rightarrow> string \<Rightarrow> leak list" where
  "all_results srch email_flag target = aggregate (queries srch (search_terms email_flag target))"

section \<open>The output file\<close>

text \<open>
  The three formats read and write the file through different libraries. A file of the
  format \<open>json\<close> is kept as what \<open>json.load\<close> makes of it: a document, or a text it
  rejects with \<open>JSONDecodeError\<close>; \<open>json.dump\<close> stores the document it is given. A file of
  the formats \<open>csv\<close> and \<open>txt\<close> is kept as its text. \<open>None\<close> is the absent file. The
  destination is the format of the run together with the file.
\<close>

datatype json =
    JNull
  | JBool bool
  | JNum rat
  | JStr string
  | JArr "json list"
  | JObj "(string \<times> json) list"

datatype json_file = Unparsable | Document json

datatype dest =
    JsonDest "json_file option"
  | CsvDest "string option"
  | TxtDest "string option"

text \<open>
  \<open>entry.get(k, '')\<close> on a dictionary (kept as the list of its items; the first item
  of a key counts), and the text an f-string puts for a value: a string stands for
  itself; \<open>fmt\<close> is Python's \<open>format\<close> of the values that are not strings.
\<close>

definition dict_get :: "(string \<times> json) list \<Rightarrow> string \<Rightarrow> json" where
  "dict_get d k = (case map_of d k of None \<Rightarrow> JStr [] | Some v \<Rightarrow> v)"

definition py_format :: "(json \<Rightarrow> string) \<Rightarrow> json \<Rightarrow> string" where
  "py_format fmt v = (case v of JStr s \<Rightarrow> s | _ \<Rightarrow> fmt v)"

definition entry_key :: "(json \<Rightarrow> string) \<Rightarrow> (string \<times> json) list \<Rightarrow> string" where
  "entry_key fmt d = cred_key (py_format fmt (dict_get d ''email'')) (py_format fmt (dict_get d ''password''))"

text \<open>
  \<open>for entry in existing\<close> over a list: an entry that is not a dictionary has no \<open>get\<close>,
  and the loop ends there with \<open>AttributeError\<close>, the keys added so far staying in \<open>seen\<close>.
\<close>

fun add_entries :: "(json \<Rightarrow> string) \<Rightarrow> json list \<Rightarrow> string set \<Rightarrow> exn option \<times> string set" where
  "add_entries fmt [] S = (None, S)"
| "add_entries fmt (JObj d # rest) S = add_entries fmt rest (insert (entry_key fmt d) S)"
| "add_entries fmt (entry # rest) S = (Some AttributeError, S)"

text \<open>
  The loop over whatever \<open>json.load\<close> returned: a dictionary and a string are iterated by
  their keys and characters, which are strings and have no \<open>get\<close>; the other values are
  not iterable.
\<close>

definition iterate_existing :: "(json \<Rightarrow> string) \<Rightarrow> json \<Rightarrow> string set \<Rightarrow> exn option \<times> string set" where
  "iterate_existing fmt existing S =
     (case existing of
        JArr es \<Rightarrow> add_entries fmt es S
      | JObj d \<Rightarrow> (if d = [] then (None, S) else (Some AttributeError, S))
      | JStr s \<Rightarrow> (if s = [] then (None, S) else (Some AttributeError, S))
      | _ \<Rightarrow> (Some TypeError, S))"

definition load_json :: "(json \<Rightarrow> string) \<Rightarrow> json_file \<Rightarrow> state \<Rightarrow> state" where
  "load_json fmt f st =
     (case f of
        Unparsable \<Rightarrow> log_at WARNING ''Could not parse existing output file, starting fresh dedup'' st
      | Document existing \<Rightarrow>
          (case iterate_existing fmt existing (seen st) of
             (None, S) \<Rightarrow> log_at INFO ''Loaded existing credentials for dedup'' (st\<lparr>seen := S\<rparr>)
           | (Some e, S) \<Rightarrow> log_at WARNING ''Error loading existing output'' (st\<lparr>seen := S\<rparr>)))"

text \<open>
  \<open>csv.DictReader\<close> is the library's: \<open>rd\<close> gives, for the text of a file, the rows it
  yields (a dictionary from the column names to a string, or to \<open>None\<close> where the row is
  short) and the exception that ended the iteration, if any.
\<close>

type_synonym row = "(string \<times> string option) list"

type_synonym dict_reader = "string \<Rightarrow> row list \<times> exn option"

definition row_get :: "row \<Rightarrow> string \<Rightarrow> string" where
  "row_get r k = (case map_of r k of None \<Rightarrow> [] | Some None \<Rightarrow> ''None'' | Some (Some v) \<Rightarrow> v)"

definition row_key :: "row \<Rightarrow> string" where
  "row_key r = cred_key (row_get r ''email'') (row_get r ''password'')"

definition load_csv :: "dict_reader \<Rightarrow> string \<Rightarrow> state \<Rightarrow> state" where
  "load_csv rd text st =
     (case rd text of
        (rows, None) \<Rightarrow>
          log_at INFO ''Loaded existing credentials for dedup'' (st\<lparr>seen := seen st \<union> row_key ` set rows\<rparr>)
      | (rows, Some e) \<Rightarrow>
          log_at WARNING ''Error loading existing output'' (st\<lparr>seen := seen st \<union> row_key ` set rows\<rparr>))"

text \<open>
  A text file opened with \<open>open(path, 'r')\<close> is read with universal newlines: \<open>\r\n\<close> and
  \<open>\r\<close> arrive as \<open>\n\<close>. The lines of \<open>for line in f\<close> are stripped and the empty ones
  skipped, so they are taken here as the pieces between the line feeds.
\<close>

fun universal_newlines :: "string \<Rightarrow> string" where
  "universal_newlines [] = []"
| "universal_newlines [c] = [if c = CHR 0x0D then CHR 0x0A else c]"
| "universal_newlines (c # d # cs) =
     (if c = CHR 0x0D \<and> d = CHR 0x0A then CHR 0x0A # universal_newlines cs
      else if c = CHR 0x0D then CHR 0x0A # universal_newlines (d # cs)
      else c # universal_newlines (d # cs))"

definition txt_key :: "string \<Rightarrow> string" where
  "txt_key line =
     (case re_search CRED_PATTERN line of
        Some cred_match \<Rightarrow> group_of line cred_match 0
      | None \<Rightarrow> line)"

definition load_txt :: "string \<Rightarrow> state \<Rightarrow> state" where
  "load_txt text st =
     log_at INFO ''Loaded existing credentials for dedup''
       (st\<lparr>seen := fold (\<lambda>line S. if strip line = [] then S else insert (txt_key (strip line)) S)
                         (split_nl (universal_newlines text)) (seen st)\<rparr>)"

text \<open>The resume step: nothing is read, and nothing logged, when the file does not exist.\<close>

definition load_existing :: "dict_reader \<Rightarrow> (json \<Rightarrow> string) \<Rightarrow> dest \<Rightarrow> state \<Rightarrow> state" where
  "load_existing rd fmt d st =
     (case d of
        JsonDest None \<Rightarrow> st
      | CsvDest None \<Rightarrow> st
      | TxtDest None \<Rightarrow> st
      | JsonDest (Some f) \<Rightarrow> load_json fmt f (log_at INFO ''Resuming: loading existing credentials'' st)
      | CsvDest (Some text) \<Rightarrow> load_csv rd text (log_at INFO ''Resuming: loading existing credentials'' st)
      | TxtDest (Some text) \<Rightarrow> load_txt text (log_at INFO ''Resuming: loading existing credentials'' st))"

section \<open>Writing the output\<close>

definition cred_json :: "cred \<Rightarrow> json" where
  "cred_json c =
     JObj [(''url'', JStr (url c)), (''email'', JStr (email c)), (''password'', JStr (password c)),
           (''source'', JStr (source c)), (''raw'', JStr (raw c))]"

text \<open>
  \<open>csv.DictWriter\<close> with the default dialect: a field that holds a comma, a double quote,
  a carriage return or a line feed is quoted, with its double quotes doubled; the fields
  are joined by commas and the row ends with \<open>\r\n\<close>.
\<close>

definition csv_field :: "string \<Rightarrow> string" where
  "csv_field f =
     (if list_ex (\<lambda>c. c \<in> {CHR '','', CHR 0x22, CHR 0x0D, CHR 0x0A}) f
      then [CHR 0x22] @ concat (map (\<lambda>c. if c = CHR 0x22 then [c, c] else [c]) f) @ [CHR 0x22]
      else f)"

definition csv_line :: "string list \<Rightarrow> string" where
  "csv_line fs =
     (case fs of [] \<Rightarrow> [] | f # rest \<Rightarrow> csv_field f @ concat (map (\<lambda>g. CHR '','' # csv_field g) rest))
     @ [CHR 0x0D, CHR 0x0A]"

definition csv_header :: string where
  "csv_header = csv_line [''url'', ''email'', ''password'', ''source'']"

definition csv_row :: "cred \<Rightarrow> string" where
  "csv_row c = csv_line [url c, email c, password c, source c]"

definition text_of :: "string option \<Rightarrow> string" where
  "text_of f = (case f of None \<Rightarrow> [] | Some t \<Rightarrow> t)"

text \<open>
  The block under \<open># Write output\<close>, with the exit status of the process. In the format
  \<open>json\<close>, \<open>existing_entries + new_creds\<close> raises \<open>TypeError\<close> when the document of the
  file is not a list; the handler at the end of the script logs it and exits with 1,
  before the file is opened for writing.
\<close>

definition write_output :: "dest \<Rightarrow> cred list \<Rightarrow> state \<Rightarrow> dest \<times> int \<times> state" where
  "write_output d creds st =
     (if creds = [] then
        (d, 0, log_at INFO ''Total unique credentials (all runs)'' (log_at INFO ''No new credentials found'' st))
      else
        (case d of
           JsonDest f \<Rightarrow>
             (let existing_entries =
                    (case f of None \<Rightarrow> JArr [] | Some Unparsable \<Rightarrow> JArr [] | Some (Document v) \<Rightarrow> v)
              in (case existing_entries of
                    JArr es \<Rightarrow>
                      (JsonDest (Some (Document (JArr (es @ map cred_json creds)))), 0,
                       log_at INFO ''Total unique credentials (all runs)'' (log_at INFO ''Wrote new credentials'' st))
                  | _ \<Rightarrow> (d, 1, log_at ERROR ''Error during credential search'' st)))
         | CsvDest f \<Rightarrow>
             (let file_exists = (f \<noteq> None \<and> 0 < length (text_of f))
              in (CsvDest (Some (text_of f @ (if \<not> file_exists then csv_header else [])
                                           @ concat (map csv_row creds))), 0,
                  log_at INFO ''Total unique credentials (all runs)'' (log_at INFO ''Wrote new credentials'' st)))
         | TxtDest f \<Rightarrow>
             (TxtDest (Some (text_of f @ concat (map (\<lambda>c. raw c @ [CHR 0x0A]) creds))), 0,
              log_at INFO ''Total unique credentials (all runs)'' (log_at INFO ''Wrote new credentials'' st))))"

section \<open>The run\<close>

definition init_state :: state where
  "init_state = \<lparr>calls = 0, trace = [], seen = {}, new_creds = []\<rparr>"

text \<open>
  The script from the search on: the aggregated results, the resume step, the loop over
  the documents, the output. The result is the destination after the run, the exit
  status and the final state.
\<close>

definition main ::
  "search \<Rightarrow> upstream \<Rightarrow> dict_reader \<Rightarrow> (json \<Rightarrow> string) \<Rightarrow> bool \<Rightarrow> string \<Rightarrow> dest \<Rightarrow> dest \<times> int \<times> state" where
  "main srch ix rd fmt email_flag target d =
     (let results = all_results srch email_flag target;
          st = load_existing rd fmt d init_state;
          st' = process_leaks ix target results st
      in write_output d (new_creds st') st')"

section \<open>Reading the trace\<close>

text \<open>The delays slept and the fetches made, in the order of the trace.\<close>

fun sleeps :: "event list \<Rightarrow> rat list" where
  "sleeps [] = []"
| "sleeps (Sleep d # es) = d # sleeps es"
| "sleeps (e # es) = sleeps es"

fun fetches :: "event list \<Rightarrow> fv_args list" where
  "fetches [] = []"
| "fetches (FileView a # es) = a # fetches es"
| "fetches (e # es) = fetches es"

text \<open>The document has the four keys of a fetch, with the values \<open>a\<close>.\<close>

definition has_keys :: "leak \<Rightarrow> fv_args \<Rightarrow> bool" where
  "has_keys leak a = (case a of (t, m, sid, b) \<Rightarrow>
      ltype leak = Some t \<and> media leak = Some m \<and> storageid leak = Some sid \<and> bucket leak = Some b)"

text \<open>What a failed attempt that is not the last leaves in the trace, the \<open>k\<close>-th after the first delay \<open>delay\<close>.\<close>

definition round_events :: "fv_args \<Rightarrow> int \<Rightarrow> nat \<Rightarrow> event list" where
  "round_events a delay k = [FileView a, Log WARNING ''FILE_VIEW attempt failed'', Sleep (of_int (delay * 2 ^ k))]"

section \<open>First seen wins\<close>

text \<open>
  The reading of "the first-seen occurrence wins" that the properties below compare the
  code with: of a list, the elements whose key is not in \<open>S\<close> and is not the key of an
  earlier element, in their order.
\<close>

definition first_seen :: "('a \<Rightarrow> 'k) \<Rightarrow> 'k set \<Rightarrow> 'a list \<Rightarrow> 'a list" where
  "first_seen key S xs =
     map (\<lambda>i. xs ! i)
         (filter (\<lambda>i. key (xs ! i) \<notin> S \<and> key (xs ! i) \<notin> key ` set (take i xs)) [0 ..< length xs])"

text \<open>The records of a query, none for a failed one, and the records with an identifier.\<close>

definition records_of :: "exn + leak list \<Rightarrow> leak list" where
  "records_of q = (case q of Inl e \<Rightarrow> [] | Inr records \<Rightarrow> records)"

definition with_sid :: "leak list \<Rightarrow> leak list" where
  "with_sid rs = filter (\<lambda>r. truthy (storageid r)) rs"

section \<open>The candidates of a run\<close>

text \<open>
  The credential records that the lines of the documents yield before the dedup store
  is asked, in the order in which the run reads them: per list of lines, per document
  (none when the document has no name or its fetch fails), and for the whole loop.
\<close>

definition candidates :: "string \<Rightarrow> string \<Rightarrow> string list \<Rightarrow> cred list" where
  "candidates target src lines =
     concat (map (\<lambda>line. case candidate_of target src line of Candidate c \<Rightarrow> [c] | _ \<Rightarrow> []) lines)"

definition doc_candidates :: "upstream \<Rightarrow> string \<Rightarrow> leak \<Rightarrow> state \<Rightarrow> cred list" where
  "doc_candidates ix target leak st =
     (case name leak of
        None \<Rightarrow> []
      | Some _ \<Rightarrow>
          (case file_view_with_retry ix leak MAX_RETRIES (log_at DEBUG ''Processing leak'' st) of
             (Inl e, st') \<Rightarrow> []
           | (Inr contents, st') \<Rightarrow> candidates target (source_of leak) (split_nl contents)))"

fun run_candidates :: "upstream \<Rightarrow> string \<Rightarrow> nat \<Rightarrow> nat \<Rightarrow> leak list \<Rightarrow> state \<Rightarrow> cred list" where
  "run_candidates ix target n i [] st = []"
| "run_candidates ix target n i (leak # rest) st =
     doc_candidates ix target leak st
     @ run_candidates ix target n (Suc i) rest (process_leak ix target n i leak st)"

section \<open>Outcomes of the resume step\<close>

text \<open>
  The file does not exist; a value is a dictionary, a list; and when the resume step
  raises: the text is not json, the document is not iterable, an item of the iteration
  has no \<open>get\<close>, or the csv reader ends with an exception.
\<close>

definition absent :: "dest \<Rightarrow> bool" where
  "absent d = (d = JsonDest None \<or> d = CsvDest None \<or> d = TxtDest None)"

fun is_dict :: "json \<Rightarrow> bool" where
  "is_dict (JObj d) = True"
| "is_dict v = False"

fun the_dict :: "json \<Rightarrow> (string \<times> json) list" where
  "the_dict (JObj d) = d"
| "the_dict v = []"

fun is_list :: "json \<Rightarrow> bool" where
  "is_list (JArr es) = True"
| "is_list v = False"

definition load_raises :: "dict_reader \<Rightarrow> dest \<Rightarrow> bool" where
  "load_raises rd d =
     (case d of
        JsonDest (Some Unparsable) \<Rightarrow> True
      | JsonDest (Some (Document v)) \<Rightarrow>
          (case v of
             JArr es \<Rightarrow> \<not> list_all is_dict es
           | JObj kvs \<Rightarrow> kvs \<noteq> []
           | JStr s \<Rightarrow> s \<noteq> []
           | _ \<Rightarrow> True)
      | CsvDest (Some text) \<Rightarrow> snd (rd text) \<noteq> None
      | _ \<Rightarrow> False)"

section \<open>The character classes of the credential pattern\<close>

text \<open>The characters of \<open>[^/:\s]\<close> and of \<open>[a-zA-Z]\<close>.\<close>

definition email_char :: "char \<Rightarrow> bool" where
  "email_char c = (c \<noteq> CHR ''/'' \<and> c \<noteq> CHR '':'' \<and> \<not> isspace c)"

definition letter :: "char \<Rightarrow> bool" where
  "letter c = ((of_char CHR ''a'' \<le> (of_char c :: nat) \<and> (of_char c :: nat) \<le> of_char CHR ''z'') \<or>
               (of_char CHR ''A'' \<le> (of_char c :: nat) \<and> (of_char c :: nat) \<le> of_char CHR ''Z''))"

section \<open>Sample inputs\<close>

definition demo_line :: string where
  "demo_line = ''https://site.example/login:user@corp.example:Sup3rSecret!''"

definition demo_leak :: leak where
  "demo_leak = \<lparr>name = Some ''doc1'', ltype = Some 1, media = Some 24,
                 storageid = Some ''s1'', bucket = Some ''pastes''\<rparr>"

definition demo_leak2 :: leak where
  "demo_leak2 = \<lparr>name = Some ''doc2'', ltype = Some 1, media = Some 24,
                  storageid = Some ''s2'', bucket = Some ''pastes''\<rparr>"

text \<open>A search that answers for the bucket \<open>pastes\<close> only, and a fetch that always succeeds.\<close>

definition demo_search :: search where
  "demo_search term b = (if b = ''pastes'' then Inr [demo_leak] else Inl (ServiceError ''down''))"

definition demo_ix :: upstream where
  "demo_ix n a = Inr demo_line"

text \<open>A fetch that fails for the document \<open>s1\<close> on every call.\<close>

definition failing_ix :: upstream where
  "failing_ix n a =
     (case a of (t, m, sid, b) \<Rightarrow> if sid = ''s1'' then Inl (ServiceError ''unavailable'') else Inr demo_line)"

definition demo_rd :: dict_reader where
  "demo_rd text = ([], None)"

definition demo_fmt :: "json \<Rightarrow> string" where
  "demo_fmt v = ''None''"

text \<open>
  Three query results: the second query fails; a document comes back twice, two records
  have no identifier.
\<close>

definition demo_qs :: "(exn + leak list) list" where
  "demo_qs =
     [Inr [demo_leak, demo_leak2, demo_leak\<lparr>name := Some ''again''\<rparr>],
      Inl (ServiceError ''down''),
      Inr [demo_leak2\<lparr>storageid := None\<rparr>, demo_leak\<lparr>storageid := Some []\<rparr>, demo_leak2]]"

text \<open>The record that \<open>demo_line\<close> yields in a document named \<open>src\<close>.\<close>

definition demo_cred :: "string \<Rightarrow> cred" where
  "demo_cred src = \<lparr>url = ''https://site.example/login'', email = ''user@corp.example'',
                     password = ''Sup3rSecret!'', source = src, raw = demo_line\<rparr>"

text \<open>A second credential record, with a colon in the password.\<close>

definition other_cred :: cred where
  "other_cred = \<lparr>url = [], email = ''bob@corp.example'', password = ''a:b'', source = ''doc2'',
                  raw = ''bob@corp.example:a:b''\<rparr>"

text \<open>A json file whose second entry is a number.\<close>

definition bad_doc :: dest where
  "bad_doc = JsonDest (Some (Document (JArr [cred_json (demo_cred ''doc1''), JNum 5])))"

section \<open>Basic facts about the state\<close>

lemma new_creds_log [simp]: "new_creds (log_at lv msg st) = new_creds st"
  by (simp add: log_at_def)

lemma new_creds_sleep [simp]: "new_creds (sleep d st) = new_creds st"
  by (simp add: sleep_def)

lemma seen_log [simp]: "seen (log_at lv msg st) = seen st"
  by (simp add: log_at_def)

lemma seen_sleep [simp]: "seen (sleep d st) = seen st"
  by (simp add: sleep_def)

lemma calls_log [simp]: "calls (log_at lv msg st) = calls st"
  by (simp add: log_at_def)

lemma calls_sleep [simp]: "calls (sleep d st) = calls st"
  by (simp add: sleep_def)

lemma trace_log [simp]: "trace (log_at lv msg st) = trace st @ [Log lv msg]"
  by (simp add: log_at_def)

lemma trace_sleep [simp]: "trace (sleep d st) = trace st @ [Sleep d]"
  by (simp add: sleep_def)

section \<open>No new credentials, no write\<close>

text \<open>
  C10. When the run ends with no new credential record, the destination after the run
  is the destination before it (an absent file stays absent, a file keeps its content:
  no header row, no empty array) and the exit status is 0.
\<close>

theorem no_new_creds_no_write:
  "new_creds (snd (snd (main srch ix rd fmt email_flag target d))) = [] \<Longrightarrow>
   fst (main srch ix rd fmt email_flag target d) = d \<and>
   fst (snd (main srch ix rd fmt email_flag target d)) = 0"
  by (auto simp: main_def write_output_def Let_def
           split: if_splits dest.splits json.splits option.splits json_file.splits)

text \<open>
  A run whose only document repeats a credential of the existing output: nothing is
  new, and the file is as it was.
\<close>

theorem no_new_creds_no_write_witness:
  "new_creds (snd (snd (main demo_search demo_ix demo_rd demo_fmt False ''corp.example''
                          (TxtDest (Some ''user@corp.example:Sup3rSecret!''))))) = []
   \<and> fst (main demo_search demo_ix demo_rd demo_fmt False ''corp.example''
             (TxtDest (Some ''user@corp.example:Sup3rSecret!'')))
       = TxtDest (Some ''user@corp.example:Sup3rSecret!'')
   \<and> fst (snd (main demo_search demo_ix demo_rd demo_fmt False ''corp.example''
                  (TxtDest (Some ''user@corp.example:Sup3rSecret!'')))) = 0"
proof -
  have h: "new_creds (snd (snd (main demo_search demo_ix demo_rd demo_fmt False ''corp.example''
                          (TxtDest (Some ''user@corp.example:Sup3rSecret!''))))) = []"
    by code_simp
  from no_new_creds_no_write [OF h] h show ?thesis by simp
qed

section \<open>The retry ceiling\<close>

lemma FILE_VIEW_keys:
  "has_keys leak a \<Longrightarrow>
   FILE_VIEW ix leak st = (ix (calls st) a, st\<lparr>calls := Suc (calls st), trace := trace st @ [FileView a]\<rparr>)"
  by (cases a) (simp add: has_keys_def FILE_VIEW_def)

lemma retry_loop_all_fail:
  "has_keys leak a \<Longrightarrow> n = nat (max_retries - attempt) \<Longrightarrow> attempt \<le> max_retries \<Longrightarrow>
   \<forall>k \<le> n. isl (ix (calls st + k) a) \<Longrightarrow>
   retry_loop ix leak max_retries attempt delay st =
     (Inl (projl (ix (calls st + n) a)),
      st\<lparr>calls := calls st + Suc n,
         trace := trace st @ concat (map (round_events a delay) [0..<n]) @ [FileView a]\<rparr>)"
proof (induction n arbitrary: attempt delay st)
  case 0
  then have eq: "attempt = max_retries" by simp
  from 0 have "isl (ix (calls st) a)" by simp
  then obtain e where e: "ix (calls st) a = Inl e" by (cases "ix (calls st) a") auto
  show ?case
    by (subst retry_loop.simps) (simp add: FILE_VIEW_keys [OF 0(1)] eq e)
next
  case (Suc n)
  then have lt: "attempt < max_retries" and n: "n = nat (max_retries - (attempt + 1))" by auto
  from Suc.prems have "isl (ix (calls st) a)" by (metis add.right_neutral le0)
  then obtain e where e: "ix (calls st) a = Inl e" by (cases "ix (calls st) a") auto
  let ?st = "sleep (of_int delay) (log_at WARNING ''FILE_VIEW attempt failed''
               (st\<lparr>calls := Suc (calls st), trace := trace st @ [FileView a]\<rparr>))"
  have fails: "\<forall>k \<le> n. isl (ix (calls ?st + k) a)"
    using Suc.prems(4) by (auto simp: sleep_def log_at_def)
  have step: "retry_loop ix leak max_retries attempt delay st =
              retry_loop ix leak max_retries (attempt + 1) (delay * 2) ?st"
    using lt by (subst retry_loop.simps) (simp add: FILE_VIEW_keys [OF Suc.prems(1)] e)
  have shift: "round_events a delay (Suc k) = round_events a (delay * 2) k" for k
    by (simp add: round_events_def)
  have "[0..<Suc n] = 0 # map Suc [0..<n]"
    by (simp add: upt_conv_Cons map_Suc_upt del: upt_Suc)
  then have rounds: "concat (map (round_events a delay) [0..<Suc n]) =
                round_events a delay 0 @ concat (map (round_events a (delay * 2)) [0..<n])"
    by (simp add: comp_def shift del: upt_Suc)
  have "retry_loop ix leak max_retries (attempt + 1) (delay * 2) ?st =
     (Inl (projl (ix (calls ?st + n) a)),
      ?st\<lparr>calls := calls ?st + Suc n,
         trace := trace ?st @ concat (map (round_events a (delay * 2)) [0..<n]) @ [FileView a]\<rparr>)"
    using Suc.IH [OF Suc.prems(1) n _ fails] lt by simp
  then show ?case
    unfolding step rounds by (simp add: sleep_def log_at_def round_events_def)
qed


lemma sleeps_append [simp]: "sleeps (xs @ ys) = sleeps xs @ sleeps ys"
  by (induction xs rule: sleeps.induct) simp_all

lemma fetches_append [simp]: "fetches (xs @ ys) = fetches xs @ fetches ys"
  by (induction xs rule: fetches.induct) simp_all

lemma sleeps_rounds:
  "sleeps (concat (map (round_events a delay) [0..<n])) = map (\<lambda>k. of_int (delay * 2 ^ k)) [0..<n]"
  by (induction n) (simp_all add: round_events_def)

lemma fetches_rounds:
  "fetches (concat (map (round_events a delay) [0..<n])) = replicate n a"
  by (induction n) (simp_all add: round_events_def replicate_append_same)

lemma backoff_sum: "sum_list (map (\<lambda>k. 2 * 2 ^ k) [0..<n]) = (2::rat) ^ Suc n - 2"
  by (induction n) simp_all

text \<open>
  C5. A document whose fetch raises on every attempt: \<open>file_view_with_retry\<close> calls the
  service \<open>max_retries\<close> times and no more, the exception of the last call is the one it
  raises, and the delays slept are 2, 4, ... , one after each attempt but the last; their
  sum is \<open>2 ^ max_retries - 2\<close>. The last event is the last fetch: no sleep follows it.
\<close>

theorem retry_ceiling:
  "has_keys leak a \<Longrightarrow> 1 \<le> max_retries \<Longrightarrow>
   \<forall>k < nat max_retries. isl (ix (calls st + k) a) \<Longrightarrow>
   file_view_with_retry ix leak max_retries st = (r, st') \<Longrightarrow>
     r = ix (calls st + nat max_retries - 1) a \<and> isl r \<and>
     calls st' = calls st + nat max_retries \<and>
     fetches (trace st') = fetches (trace st) @ replicate (nat max_retries) a \<and>
     sleeps (trace st') = sleeps (trace st) @ map (\<lambda>k. 2 * 2 ^ k) [0..<nat max_retries - 1] \<and>
     sum_list (map (\<lambda>k. 2 * 2 ^ k) [0..<nat max_retries - 1]) = (2::rat) ^ nat max_retries - 2 \<and>
     last (trace st') = FileView a"
proof -
  assume keys: "has_keys leak a" and pos: "1 \<le> max_retries"
    and fails: "\<forall>k < nat max_retries. isl (ix (calls st + k) a)"
    and run: "file_view_with_retry ix leak max_retries st = (r, st')"
  define n where "n = nat (max_retries - 1)"
  have n: "nat max_retries = Suc n" using pos by (simp add: n_def)
  have "\<forall>k \<le> n. isl (ix (calls st + k) a)" using fails n by simp
  from retry_loop_all_fail [where attempt = 1 and ix = ix and st = st and delay = RETRY_DELAY, OF keys n_def pos this] run
  have r: "r = Inl (projl (ix (calls st + n) a))"
    and st': "st' = st\<lparr>calls := calls st + Suc n,
         trace := trace st @ concat (map (round_events a RETRY_DELAY) [0..<n]) @ [FileView a]\<rparr>"
    by (simp_all add: file_view_with_retry_def)
  have "isl (ix (calls st + n) a)" using fails n by simp
  then have r': "r = ix (calls st + n) a" using r by (cases "ix (calls st + n) a") auto
  show ?thesis
    using r' \<open>isl (ix (calls st + n) a)\<close>
    by (simp add: st' n sleeps_rounds fetches_rounds backoff_sum RETRY_DELAY_def
        replicate_append_same)
qed

text \<open>With the default of three attempts: the delays are 2 and 4, six in all.\<close>

theorem retry_ceiling_witness:
  "has_keys demo_leak (1, 24, ''s1'', ''pastes'') \<and> 1 \<le> MAX_RETRIES \<and>
   fst (file_view_with_retry failing_ix demo_leak MAX_RETRIES init_state) = Inl (ServiceError ''unavailable'') \<and>
   calls (snd (file_view_with_retry failing_ix demo_leak MAX_RETRIES init_state)) = 3 \<and>
   sleeps (trace (snd (file_view_with_retry failing_ix demo_leak MAX_RETRIES init_state))) = [2, 4] \<and>
   sum_list (sleeps (trace (snd (file_view_with_retry failing_ix demo_leak MAX_RETRIES init_state)))) = 6"
proof -
  have keys: "has_keys demo_leak (1, 24, ''s1'', ''pastes'')"
    by (simp add: has_keys_def demo_leak_def)
  have pos: "1 \<le> MAX_RETRIES" by (simp add: MAX_RETRIES_def)
  have fails: "\<forall>k < nat MAX_RETRIES. isl (failing_ix (calls init_state + k) (1, 24, ''s1'', ''pastes''))"
    by (simp add: failing_ix_def)
  have "[0..<2] = [0, Suc 0]" by (simp add: upt_conv_Cons)
  with retry_ceiling [where ix = failing_ix and st = init_state and leak = demo_leak and max_retries = MAX_RETRIES, OF keys pos fails surjective_pairing]
  show ?thesis
    using keys pos
    by (simp add: failing_ix_def MAX_RETRIES_def init_state_def)
qed

section \<open>Properties of first-seen\<close>

lemma first_seen_Nil [simp]: "first_seen key S [] = []"
  by (simp add: first_seen_def)

lemma first_seen_Cons:
  "first_seen key S (x # xs) =
     (if key x \<in> S then first_seen key S xs else x # first_seen key (insert (key x) S) xs)"
proof -
  define P where "P = (\<lambda>i. key ((x # xs) ! i) \<notin> S \<and> key ((x # xs) ! i) \<notin> key ` set (take i (x # xs)))"
  define Q where "Q = (\<lambda>i. key (xs ! i) \<notin> insert (key x) S \<and> key (xs ! i) \<notin> key ` set (take i xs))"
  define R where "R = (\<lambda>i. key (xs ! i) \<notin> S \<and> key (xs ! i) \<notin> key ` set (take i xs))"
  have idx: "[0..<length (x # xs)] = 0 # map Suc [0..<length xs]"
    by (simp add: upt_conv_Cons map_Suc_upt del: upt_Suc)
  have PQ: "P \<circ> Suc = Q" by (auto simp: P_def Q_def fun_eq_iff)
  have QR: "key x \<in> S \<Longrightarrow> Q = R" by (auto simp: Q_def R_def fun_eq_iff)
  have P0: "P 0 \<longleftrightarrow> key x \<notin> S" by (simp add: P_def)
  have "first_seen key S (x # xs) = map ((!) (x # xs)) (filter P (0 # map Suc [0..<length xs]))"
    unfolding first_seen_def idx P_def ..
  also have "\<dots> = (if key x \<in> S then [] else [x]) @ map ((!) xs) (filter Q [0..<length xs])"
    by (simp add: filter_map P0 PQ)
  finally have "first_seen key S (x # xs) =
      (if key x \<in> S then [] else [x]) @ map ((!) xs) (filter Q [0..<length xs])" .
  moreover have "first_seen key (insert (key x) S) xs = map ((!) xs) (filter Q [0..<length xs])"
    unfolding first_seen_def Q_def ..
  moreover have "first_seen key S xs = map ((!) xs) (filter R [0..<length xs])"
    unfolding first_seen_def R_def ..
  ultimately show ?thesis using QR by simp
qed

lemma first_seen_append:
  "first_seen key S (xs @ ys) = first_seen key S xs @ first_seen key (S \<union> key ` set xs) ys"
proof (induction xs arbitrary: S)
  case Nil
  show ?case by simp
next
  case (Cons x xs)
  have "key x \<in> S \<Longrightarrow> S \<union> key ` set (x # xs) = S \<union> key ` set xs" by auto
  moreover have "insert (key x) S \<union> key ` set xs = S \<union> key ` set (x # xs)" by auto
  ultimately show ?case by (simp add: first_seen_Cons Cons.IH)
qed

lemma keys_first_seen: "key ` set (first_seen key S xs) = key ` set xs - S"
  by (induction xs arbitrary: S) (auto simp: first_seen_Cons)

lemma distinct_first_seen: "distinct (map key (first_seen key S xs))"
proof (induction xs arbitrary: S)
  case Nil
  show ?case by simp
next
  case (Cons x xs)
  have "key x \<notin> key ` set (first_seen key (insert (key x) S) xs)"
    by (simp add: keys_first_seen)
  with Cons.IH show ?case by (simp add: first_seen_Cons)
qed

lemma set_first_seen: "set (first_seen key S xs) \<subseteq> set xs"
  by (induction xs arbitrary: S) (auto simp: first_seen_Cons)

lemma subseq_first_seen: "subseq (first_seen key S xs) xs"
  by (induction xs arbitrary: S) (auto simp: first_seen_Cons)

section \<open>The aggregated document list\<close>

lemma add_query_Inl [simp]: "add_query (Inl e) acc = acc"
  by (simp add: add_query_def)

lemma add_query_Inr [simp]: "add_query (Inr rs) acc = fold add_record rs acc"
  by (simp add: add_query_def)

lemma add_record_step:
  "add_record r (S, acc) =
     (if truthy (storageid r) \<and> storageid r \<notin> S then (insert (storageid r) S, acc @ [r]) else (S, acc))"
  by (simp add: add_record_def)

lemma fold_add_record:
  "fold add_record rs (S, acc) =
     (S \<union> storageid ` set (with_sid rs), acc @ first_seen storageid S (with_sid rs))"
proof (induction rs arbitrary: S acc)
  case Nil
  show ?case by (simp add: with_sid_def)
next
  case (Cons r rs)
  show ?case
    by (auto simp: Cons.IH add_record_step with_sid_def first_seen_Cons)
qed

lemma fold_add_query:
  "fold add_query qs (S, acc) =
     (S \<union> storageid ` set (with_sid (concat (map records_of qs))),
      acc @ first_seen storageid S (with_sid (concat (map records_of qs))))"
proof (induction qs arbitrary: S acc)
  case Nil
  show ?case by (simp add: with_sid_def)
next
  case (Cons q qs)
  show ?case
  proof (cases q)
    case (Inl e)
    then show ?thesis by (simp add: Cons.IH records_of_def)
  next
    case (Inr rs)
    have ws: "with_sid (rs @ zs) = with_sid rs @ with_sid zs" for zs
      by (simp add: with_sid_def)
    show ?thesis
      by (simp add: Inr Cons.IH records_of_def fold_add_record ws
          first_seen_append image_Un Un_assoc)
  qed
qed

text \<open>
  C8. The aggregated list is the list of the first-seen records, by storage identifier,
  among the records of the queries that have one, in the order of the queries: no
  identifier occurs twice, the order of the answers is kept, every record without an
  identifier (missing or empty) is left out, and every identifier of the answers is there.
\<close>

theorem aggregate_first_seen:
  "aggregate qs = first_seen storageid {} (with_sid (concat (map records_of qs))) \<and>
   distinct (map storageid (aggregate qs)) \<and>
   subseq (aggregate qs) (concat (map records_of qs)) \<and>
   (\<forall>r \<in> set (aggregate qs). truthy (storageid r)) \<and>
   storageid ` set (aggregate qs) = storageid ` set (with_sid (concat (map records_of qs)))"
proof -
  let ?cs = "concat (map records_of qs)"
  have eq: "aggregate qs = first_seen storageid {} (with_sid ?cs)"
    by (simp add: aggregate_def fold_add_query)
  have sub: "subseq (aggregate qs) ?cs"
    unfolding eq with_sid_def
    by (rule subseq_order.order_trans [OF subseq_first_seen]) simp
  have "set (aggregate qs) \<subseteq> set (with_sid ?cs)"
    unfolding eq by (rule set_first_seen)
  then have tr: "\<forall>r \<in> set (aggregate qs). truthy (storageid r)"
    by (auto simp: with_sid_def)
  show ?thesis
    using eq sub tr by (simp add: distinct_first_seen keys_first_seen)
qed


theorem aggregate_first_seen_witness:
  "aggregate demo_qs = [demo_leak, demo_leak2] \<and>
   distinct (map storageid (aggregate demo_qs)) \<and>
   subseq (aggregate demo_qs) (concat (map records_of demo_qs)) \<and>
   truthy (storageid demo_leak) \<and> truthy (storageid demo_leak2)"
proof -
  have "aggregate demo_qs = [demo_leak, demo_leak2]"
    by (simp add: aggregate_def demo_qs_def add_record_step demo_leak_def demo_leak2_def truthy_def)
  moreover from aggregate_first_seen [of demo_qs]
  have "distinct (map storageid (aggregate demo_qs))"
    and "subseq (aggregate demo_qs) (concat (map records_of demo_qs))"
    and "\<forall>r \<in> set (aggregate demo_qs). truthy (storageid r)"
    by blast+
  ultimately show ?thesis by simp
qed

section \<open>The delay between documents\<close>

text \<open>
  C6. Two documents, the first failing on its three attempts: the trace of the loop has
  the two retry delays and no other sleep, so the fetch of the second document follows
  the last attempt on the first with no delay between them.
\<close>

theorem rate_limit_skipped_after_failure:
  "trace (process_leaks failing_ix ''corp.example'' [demo_leak, demo_leak2] init_state) =
     [Log DEBUG ''Processing leak'',
      FileView (1, 24, ''s1'', ''pastes''), Log WARNING ''FILE_VIEW attempt failed'', Sleep 2,
      FileView (1, 24, ''s1'', ''pastes''), Log WARNING ''FILE_VIEW attempt failed'', Sleep 4,
      FileView (1, 24, ''s1'', ''pastes''), Log ERROR ''Error processing leak'',
      Log DEBUG ''Processing leak'',
      FileView (1, 24, ''s2'', ''pastes''), Log INFO ''Found'']"
  by code_simp

section \<open>Deduplication of the credentials\<close>

lemma FILE_VIEW_frame:
  "FILE_VIEW ix leak st = (r, st') \<Longrightarrow> seen st' = seen st \<and> new_creds st' = new_creds st"
  by (auto simp: FILE_VIEW_def split: option.splits)

lemma retry_loop_frame:
  "retry_loop ix leak max_retries attempt delay st = (r, st') \<Longrightarrow>
   seen st' = seen st \<and> new_creds st' = new_creds st"
proof (induction ix leak max_retries attempt delay st rule: retry_loop.induct)
  case (1 ix leak max_retries attempt delay st)
  show ?case
  proof (cases "max_retries < attempt")
    case True
    with "1.prems" show ?thesis by (simp add: retry_loop.simps)
  next
    case False
    obtain r1 st1 where fv: "FILE_VIEW ix leak st = (r1, st1)" by (cases "FILE_VIEW ix leak st")
    note fr = FILE_VIEW_frame [OF fv]
    show ?thesis
    proof (cases r1)
      case (Inr contents)
      with "1.prems" False fv fr show ?thesis by (simp add: retry_loop.simps)
    next
      case (Inl e)
      show ?thesis
      proof (cases "attempt = max_retries")
        case True
        with "1.prems" False fv fr Inl show ?thesis by (simp add: retry_loop.simps)
      next
        case ne: False
        from "1.prems" False fv Inl ne
        have "retry_loop ix leak max_retries (attempt + 1) (delay * 2)
                (sleep (of_int delay) (log_at WARNING ''FILE_VIEW attempt failed'' st1)) = (r, st')"
          by (simp add: retry_loop.simps [of ix leak max_retries attempt])
        from "1.IH" [OF False fv [symmetric] _ ne this, of e] Inl fr show ?thesis by simp
      qed
    qed
  qed
qed

lemma file_view_with_retry_frame:
  "file_view_with_retry ix leak max_retries st = (r, st') \<Longrightarrow>
   seen st' = seen st \<and> new_creds st' = new_creds st"
  unfolding file_view_with_retry_def by (rule retry_loop_frame)

lemma process_line_first_seen:
  "new_creds (process_line target src line st) =
     new_creds st @ first_seen key_of (seen st) (candidates target src [line]) \<and>
   seen (process_line target src line st) = seen st \<union> key_of ` set (candidates target src [line])"
  by (cases "candidate_of target src line")
     (auto simp: process_line_def candidates_def first_seen_Cons)

lemma candidates_Cons:
  "candidates target src (l # ls) = candidates target src [l] @ candidates target src ls"
  by (simp add: candidates_def)

lemma fold_process_line:
  "new_creds (fold (process_line target src) lines st) =
     new_creds st @ first_seen key_of (seen st) (candidates target src lines) \<and>
   seen (fold (process_line target src) lines st) = seen st \<union> key_of ` set (candidates target src lines)"
proof (induction lines arbitrary: st)
  case Nil
  show ?case by (simp add: candidates_def)
next
  case (Cons l ls)
  show ?case
    by (simp add: Cons.IH process_line_first_seen candidates_Cons [of _ _ l ls]
        first_seen_append image_Un Un_assoc)
qed

lemma process_leak_first_seen:
  "new_creds (process_leak ix target n i leak st) =
     new_creds st @ first_seen key_of (seen st) (doc_candidates ix target leak st) \<and>
   seen (process_leak ix target n i leak st) = seen st \<union> key_of ` set (doc_candidates ix target leak st)"
proof (cases "name leak")
  case None
  then show ?thesis by (simp add: process_leak_def doc_candidates_def)
next
  case (Some nm)
  obtain r st' where fv:
    "file_view_with_retry ix leak MAX_RETRIES (log_at DEBUG ''Processing leak'' st) = (r, st')"
    by (cases "file_view_with_retry ix leak MAX_RETRIES (log_at DEBUG ''Processing leak'' st)")
  from file_view_with_retry_frame [OF fv]
  have fr: "seen st' = seen st" "new_creds st' = new_creds st" by simp_all
  show ?thesis
    by (cases r) (simp_all add: process_leak_def doc_candidates_def Some fv fr fold_process_line Let_def)
qed

lemma process_from_first_seen:
  "new_creds (process_from ix target n i results st) =
     new_creds st @ first_seen key_of (seen st) (run_candidates ix target n i results st) \<and>
   seen (process_from ix target n i results st) =
     seen st \<union> key_of ` set (run_candidates ix target n i results st)"
proof (induction results arbitrary: i st)
  case Nil
  show ?case by simp
next
  case (Cons leak rest)
  show ?case
    by (simp add: Cons.IH process_leak_first_seen first_seen_append image_Un Un_assoc)
qed

text \<open>
  C1. A run of the loop that starts with the keys of the existing output in \<open>seen\<close> and no
  new record: the new records are the first-seen candidates of the run, those whose key
  is not among the loaded keys and not the key of an earlier candidate; so no two new
  records share a key, no new record has a loaded key, every later occurrence of a key
  is discarded, and \<open>seen\<close> ends as the loaded keys together with the keys of the new
  records.
\<close>

theorem first_seen_wins:
  "new_creds st = [] \<Longrightarrow> st' = process_leaks ix target results st \<Longrightarrow>
   cs = run_candidates ix target (length results) 0 results st \<Longrightarrow>
     new_creds st' = first_seen key_of (seen st) cs \<and>
     seen st' = seen st \<union> key_of ` set (new_creds st') \<and>
     distinct (map key_of (new_creds st')) \<and>
     key_of ` set (new_creds st') \<inter> seen st = {} \<and>
     key_of ` set cs \<subseteq> seen st'"
proof -
  assume a: "new_creds st = []" "st' = process_leaks ix target results st"
    "cs = run_candidates ix target (length results) 0 results st"
  from process_from_first_seen [of ix target "length results" 0 results st] a
  have n: "new_creds st' = first_seen key_of (seen st) cs"
    and s: "seen st' = seen st \<union> key_of ` set cs"
    by (simp_all add: process_leaks_def)
  show ?thesis
    unfolding n s by (auto simp: distinct_first_seen keys_first_seen)
qed


text \<open>Two documents with the same line: the record of the first is kept, the second is dropped.\<close>

theorem first_seen_wins_witness:
  "new_creds init_state = [] \<and>
   run_candidates demo_ix ''corp.example'' 2 0 [demo_leak, demo_leak2] init_state
     = [demo_cred ''doc1'', demo_cred ''doc2''] \<and>
   key_of (demo_cred ''doc1'') = key_of (demo_cred ''doc2'') \<and>
   new_creds (process_leaks demo_ix ''corp.example'' [demo_leak, demo_leak2] init_state)
     = [demo_cred ''doc1''] \<and>
   seen (process_leaks demo_ix ''corp.example'' [demo_leak, demo_leak2] init_state)
     = {''user@corp.example:Sup3rSecret!''}"
proof -
  have e: "new_creds init_state = []" by (simp add: init_state_def)
  have cs: "run_candidates demo_ix ''corp.example'' (length [demo_leak, demo_leak2]) 0
              [demo_leak, demo_leak2] init_state = [demo_cred ''doc1'', demo_cred ''doc2'']"
    by code_simp
  have k: "key_of (demo_cred src) = ''user@corp.example:Sup3rSecret!''" for src
    by (simp add: key_of_def cred_key_def demo_cred_def)
  have fs: "first_seen key_of (seen init_state) [demo_cred ''doc1'', demo_cred ''doc2'']
              = [demo_cred ''doc1'']"
    by (simp add: first_seen_Cons k init_state_def)
  from first_seen_wins [OF e refl refl, of demo_ix "''corp.example''" "[demo_leak, demo_leak2]"]
  have n: "new_creds (process_leaks demo_ix ''corp.example'' [demo_leak, demo_leak2] init_state)
          = [demo_cred ''doc1'']"
    and "seen (process_leaks demo_ix ''corp.example'' [demo_leak, demo_leak2] init_state)
          = seen init_state \<union> key_of ` set [demo_cred ''doc1'']"
    unfolding cs fs by simp_all
  then have s: "seen (process_leaks demo_ix ''corp.example'' [demo_leak, demo_leak2] init_state)
          = {''user@corp.example:Sup3rSecret!''}"
    by (simp add: k init_state_def)
  have len: "length [demo_leak, demo_leak2] = 2" by simp
  have cs2: "run_candidates demo_ix ''corp.example'' 2 0 [demo_leak, demo_leak2] init_state
              = [demo_cred ''doc1'', demo_cred ''doc2'']"
    using cs unfolding len .
  have kk: "key_of (demo_cred ''doc1'') = key_of (demo_cred ''doc2'')" by (simp only: k)
  show ?thesis by (intro conjI; fact)
qed

section \<open>The json file written and read again\<close>

lemma entry_key_cred_json [simp]: "entry_key fmt (the_dict (cred_json c)) = key_of c"
  by (simp add: entry_key_def cred_json_def dict_get_def py_format_def key_of_def)

lemma is_dict_cred_json [simp]: "is_dict (cred_json c)"
  by (simp add: cred_json_def)

lemma add_entries_takeWhile:
  "add_entries fmt es S =
     (if list_all is_dict es then None else Some AttributeError,
      S \<union> entry_key fmt ` the_dict ` set (takeWhile is_dict es))"
  by (induction fmt es S rule: add_entries.induct) auto

lemma add_entries_creds:
  "add_entries fmt (map cred_json cs) S = (None, S \<union> key_of ` set cs)"
  by (induction cs arbitrary: S)
     (auto simp: cred_json_def entry_key_def dict_get_def py_format_def key_of_def)

text \<open>
  C2. The records of a run written in the format \<open>json\<close>, after the credential records
  the file held (or into no file): the document is the list of all of them, and the
  resume step of the next run, from the empty store, ends with exactly their dedup keys.
\<close>

theorem json_round_trip:
  "new \<noteq> [] \<Longrightarrow>
   f = None \<and> old = [] \<or> f = Some (Document (JArr (map cred_json old))) \<Longrightarrow>
   d' = fst (write_output (JsonDest f) new st) \<Longrightarrow>
     d' = JsonDest (Some (Document (JArr (map cred_json (old @ new))))) \<and>
     seen (load_existing rd fmt d' init_state) = key_of ` set (old @ new)"
  by (auto simp: write_output_def load_existing_def load_json_def iterate_existing_def
        add_entries_creds init_state_def simp flip: map_append)

theorem json_round_trip_witness:
  "[other_cred] \<noteq> [] \<and>
   fst (write_output (JsonDest (Some (Document (JArr (map cred_json [demo_cred ''doc1''])))))
          [other_cred] init_state)
     = JsonDest (Some (Document (JArr [cred_json (demo_cred ''doc1''), cred_json other_cred]))) \<and>
   seen (load_existing demo_rd demo_fmt
           (JsonDest (Some (Document (JArr [cred_json (demo_cred ''doc1''), cred_json other_cred]))))
           init_state)
     = {''user@corp.example:Sup3rSecret!'', ''bob@corp.example:a:b''}"
proof -
  have n: "[other_cred] \<noteq> []" by simp
  have k: "key_of (demo_cred ''doc1'') = ''user@corp.example:Sup3rSecret!''"
    "key_of other_cred = ''bob@corp.example:a:b''"
    by (simp_all add: key_of_def cred_key_def demo_cred_def other_cred_def)
  have w: "JsonDest (Some (Document (JArr [cred_json (demo_cred ''doc1''), cred_json other_cred])))
           = fst (write_output (JsonDest (Some (Document (JArr (map cred_json [demo_cred ''doc1''])))))
                    [other_cred] init_state)"
    by (simp add: write_output_def)
  from json_round_trip [OF n disjI2 [OF refl] w, of demo_rd demo_fmt]
  have "seen (load_existing demo_rd demo_fmt
           (JsonDest (Some (Document (JArr [cred_json (demo_cred ''doc1''), cred_json other_cred]))))
           init_state)
     = {''user@corp.example:Sup3rSecret!'', ''bob@corp.example:a:b''}"
    by (simp add: k)
  with n w [symmetric] show ?thesis by (intro conjI)
qed

section \<open>A resume step that fails\<close>

text \<open>
  C9, as the code has it. The resume step never ends the run: it returns the state the
  loop over the documents starts from, with no new record and no fetch made. An absent
  file is not read: the state is unchanged, nothing is logged. For a file that exists,
  the step ends with a warning exactly when the load raised. The store stays empty when
  the text is not json or the document is not a list; for a list it holds the keys of
  the entries before the first one that is not a dictionary (all of them when the load
  does not fail), and for a csv file the keys of the rows read before the reader ended.
\<close>

theorem load_never_fatal:
  "seen st = {} \<Longrightarrow> st' = load_existing rd fmt d st \<Longrightarrow>
     new_creds st' = new_creds st \<and> calls st' = calls st \<and>
     (absent d \<longrightarrow> st' = st) \<and>
     (\<not> absent d \<longrightarrow> (load_raises rd d \<longleftrightarrow> (\<exists>msg. last (trace st') = Log WARNING msg))) \<and>
     (d = JsonDest (Some Unparsable) \<longrightarrow> seen st' = {}) \<and>
     (\<forall>v. d = JsonDest (Some (Document v)) \<longrightarrow> \<not> is_list v \<longrightarrow> seen st' = {}) \<and>
     (\<forall>es. d = JsonDest (Some (Document (JArr es))) \<longrightarrow>
        seen st' = entry_key fmt ` the_dict ` set (takeWhile is_dict es)) \<and>
     (\<forall>text. d = CsvDest (Some text) \<longrightarrow> seen st' = row_key ` set (fst (rd text)))"
proof -
  assume e: "seen st = {}" and st': "st' = load_existing rd fmt d st"
  show ?thesis
  proof (cases d)
    case (JsonDest f)
    show ?thesis
    proof (cases f)
      case None
      with JsonDest st' show ?thesis by (simp add: load_existing_def absent_def)
    next
      case (Some jf)
      show ?thesis
      proof (cases jf)
        case Unparsable
        with JsonDest Some st' e show ?thesis
          by (simp add: load_existing_def absent_def load_json_def load_raises_def)
      next
        case (Document v)
        with JsonDest Some st' e show ?thesis
          by (cases v)
             (simp_all add: load_existing_def absent_def load_json_def load_raises_def
                iterate_existing_def add_entries_takeWhile)
      qed
    qed
  next
    case (CsvDest f)
    show ?thesis
    proof (cases f)
      case None
      with CsvDest st' show ?thesis by (simp add: load_existing_def absent_def)
    next
      case (Some t)
      obtain rows err where rd: "rd t = (rows, err)" by (cases "rd t")
      with CsvDest Some st' e show ?thesis
        by (cases err) (simp_all add: load_existing_def absent_def load_csv_def load_raises_def)
    qed
  next
    case (TxtDest f)
    with st' show ?thesis
      by (cases f) (simp_all add: load_existing_def absent_def load_txt_def load_raises_def)
  qed
qed

text \<open>The file whose second entry is a number: a warning, and the key of the first entry.\<close>

theorem load_never_fatal_witness:
  "seen init_state = {} \<and> \<not> absent bad_doc \<and> load_raises demo_rd bad_doc \<and>
   last (trace (load_existing demo_rd demo_fmt bad_doc init_state))
     = Log WARNING ''Error loading existing output'' \<and>
   seen (load_existing demo_rd demo_fmt bad_doc init_state) = {''user@corp.example:Sup3rSecret!''} \<and>
   new_creds (load_existing demo_rd demo_fmt bad_doc init_state) = []"
proof -
  have e: "seen init_state = {}" by (simp add: init_state_def)
  have a: "\<not> absent bad_doc" by (simp add: absent_def bad_doc_def)
  have r: "load_raises demo_rd bad_doc" by (simp add: load_raises_def bad_doc_def)
  have l: "last (trace (load_existing demo_rd demo_fmt bad_doc init_state))
             = Log WARNING ''Error loading existing output''"
    by (simp add: bad_doc_def load_existing_def load_json_def iterate_existing_def
        add_entries_takeWhile cred_json_def)
  have k: "key_of (demo_cred ''doc1'') = ''user@corp.example:Sup3rSecret!''"
    by (simp add: key_of_def cred_key_def demo_cred_def)
  from load_never_fatal [OF e refl, of demo_rd demo_fmt bad_doc]
  have "seen (load_existing demo_rd demo_fmt bad_doc init_state)
          = entry_key demo_fmt ` the_dict ` set (takeWhile is_dict [cred_json (demo_cred ''doc1''), JNum 5])"
    and n: "new_creds (load_existing demo_rd demo_fmt bad_doc init_state) = new_creds init_state"
    by (simp_all add: bad_doc_def)
  then have s: "seen (load_existing demo_rd demo_fmt bad_doc init_state) = {''user@corp.example:Sup3rSecret!''}"
    and n': "new_creds (load_existing demo_rd demo_fmt bad_doc init_state) = []"
    by (simp_all add: is_dict_cred_json k init_state_def)
  show ?thesis by (intro conjI; fact)
qed

text \<open>
  C9 as stated fails: the load of this file raises at its second entry and the store is
  not empty afterwards; and for an absent file no warning is logged.
\<close>

theorem store_not_empty_after_failed_load:
  "load_raises demo_rd bad_doc \<and>
   trace (load_existing demo_rd demo_fmt bad_doc init_state)
     = [Log INFO ''Resuming: loading existing credentials'', Log WARNING ''Error loading existing output''] \<and>
   seen (load_existing demo_rd demo_fmt bad_doc init_state) = {''user@corp.example:Sup3rSecret!''} \<and>
   seen (load_existing demo_rd demo_fmt bad_doc init_state) \<noteq> {} \<and>
   absent (JsonDest None) \<and>
   trace (load_existing demo_rd demo_fmt (JsonDest None) init_state) = []"
  by (simp add: load_raises_def bad_doc_def load_existing_def load_json_def iterate_existing_def
      cred_json_def init_state_def entry_key_def dict_get_def py_format_def cred_key_def
      demo_cred_def absent_def)

section \<open>What a write keeps\<close>

lemma write_output_keeps:
  "d' = fst (write_output d creds st) \<Longrightarrow>
     (\<forall>f. d = CsvDest f \<longrightarrow> d' = d \<or> (\<exists>sfx. d' = CsvDest (Some (text_of f @ sfx)))) \<and>
     (\<forall>f. d = TxtDest f \<longrightarrow> d' = d \<or> (\<exists>sfx. d' = TxtDest (Some (text_of f @ sfx)))) \<and>
     (\<forall>es. d = JsonDest (Some (Document (JArr es))) \<longrightarrow>
        d' = d \<or> (\<exists>new. d' = JsonDest (Some (Document (JArr (es @ new)))))) \<and>
     (\<forall>v. d = JsonDest (Some (Document v)) \<longrightarrow> \<not> is_list v \<longrightarrow> d' = d) \<and>
     (d = JsonDest (Some Unparsable) \<longrightarrow>
        d' = d \<or> (\<exists>new. d' = JsonDest (Some (Document (JArr new)))))"
proof (cases "creds = []")
  case True
  assume "d' = fst (write_output d creds st)"
  with True show ?thesis by (simp add: write_output_def)
next
  case False
  assume d': "d' = fst (write_output d creds st)"
  show ?thesis
  proof (cases d)
    case (CsvDest f)
    with False d' show ?thesis by (simp add: write_output_def Let_def)
  next
    case (TxtDest f)
    with False d' show ?thesis by (simp add: write_output_def)
  next
    case (JsonDest f)
    show ?thesis
    proof (cases f)
      case None
      with False d' JsonDest show ?thesis by (simp add: write_output_def)
    next
      case (Some jf)
      show ?thesis
      proof (cases jf)
        case Unparsable
        with False d' JsonDest Some show ?thesis by (simp add: write_output_def)
      next
        case (Document v)
        with False d' JsonDest Some show ?thesis
          by (cases v) (simp_all add: write_output_def)
      qed
    qed
  qed
qed

text \<open>
  C7. The destination after a run: a csv or txt file is as before, or its text before
  the run followed by what the run appended; a json file that held a list holds a list
  that starts with the same entries in the same order; a json file that held another
  document is not touched. A text that is not json has no entries: it is replaced by
  the list of the new records.
\<close>

theorem prior_content_kept:
  "d' = fst (main srch ix rd fmt email_flag target d) \<Longrightarrow>
     (\<forall>f. d = CsvDest f \<longrightarrow> d' = d \<or> (\<exists>sfx. d' = CsvDest (Some (text_of f @ sfx)))) \<and>
     (\<forall>f. d = TxtDest f \<longrightarrow> d' = d \<or> (\<exists>sfx. d' = TxtDest (Some (text_of f @ sfx)))) \<and>
     (\<forall>es. d = JsonDest (Some (Document (JArr es))) \<longrightarrow>
        d' = d \<or> (\<exists>new. d' = JsonDest (Some (Document (JArr (es @ new)))))) \<and>
     (\<forall>v. d = JsonDest (Some (Document v)) \<longrightarrow> \<not> is_list v \<longrightarrow> d' = d) \<and>
     (d = JsonDest (Some Unparsable) \<longrightarrow>
        d' = d \<or> (\<exists>new. d' = JsonDest (Some (Document (JArr new)))))"
  unfolding main_def Let_def by (rule write_output_keeps)

text \<open>A csv file with its header row, and one new record: the row is appended to the text.\<close>

theorem prior_content_kept_witness:
  "fst (main demo_search demo_ix demo_rd demo_fmt False ''corp.example'' (CsvDest (Some csv_header)))
     = CsvDest (Some (csv_header @ csv_row (demo_cred ''doc1''))) \<and>
   (\<exists>sfx. fst (main demo_search demo_ix demo_rd demo_fmt False ''corp.example'' (CsvDest (Some csv_header)))
     = CsvDest (Some (text_of (Some csv_header) @ sfx)))"
proof -
  have ev: "fst (main demo_search demo_ix demo_rd demo_fmt False ''corp.example'' (CsvDest (Some csv_header)))
     = CsvDest (Some (csv_header @ csv_row (demo_cred ''doc1'')))"
    by code_simp
  have ne: "csv_row (demo_cred ''doc1'') \<noteq> []"
    by (simp add: csv_row_def csv_line_def)
  from prior_content_kept [OF refl, where srch = demo_search and ix = demo_ix and rd = demo_rd
      and fmt = demo_fmt and email_flag = False and target = "''corp.example''"
      and d = "CsvDest (Some csv_header)"]
  have "fst (main demo_search demo_ix demo_rd demo_fmt False ''corp.example'' (CsvDest (Some csv_header)))
          = CsvDest (Some csv_header) \<or>
        (\<exists>sfx. fst (main demo_search demo_ix demo_rd demo_fmt False ''corp.example'' (CsvDest (Some csv_header)))
          = CsvDest (Some (text_of (Some csv_header) @ sfx)))"
    by blast
  with ev ne show ?thesis by auto
qed

section \<open>What a match gives back\<close>

lemma take_run:
  "k \<le> length (takeWhile P xs) \<Longrightarrow> \<forall>c \<in> set (take k xs). P c"
proof -
  assume k: "k \<le> length (takeWhile P xs)"
  have "take k xs = take k (takeWhile P xs @ dropWhile P xs)" by simp
  also have "\<dots> = take k (takeWhile P xs)" using k by (simp del: takeWhile_dropWhile_id)
  finally have "set (take k xs) \<subseteq> set (takeWhile P xs)" by (simp add: set_take_subset)
  then show ?thesis by (auto dest: set_takeWhileD)
qed

lemma run_le_length:
  "k \<le> length (takeWhile P xs) \<Longrightarrow> k \<le> length xs"
  using length_takeWhile_le [of P xs] by simp

lemma give_backD:
  "give_back its pos rest mk n j = Some r \<Longrightarrow>
   \<exists>k. n \<le> k \<and> k \<le> j \<and> match_here its (pos + k) (drop k rest) mk = Some r"
proof (induction j)
  case 0
  then show ?case
    by (subst (asm) give_back.simps) (auto split: if_splits option.splits)
next
  case (Suc j)
  show ?case
  proof (cases "match_here its (pos + Suc j) (drop (Suc j) rest) mk")
    case (Some r')
    with Suc.prems have "r' = r" "n \<le> Suc j"
      by (subst (asm) give_back.simps, simp split: if_splits)+
    with Some show ?thesis by blast
  next
    case None
    with Suc.prems have "give_back its pos rest mk n j = Some r" "n \<le> Suc j"
      by (subst (asm) give_back.simps, simp split: if_splits)+
    from Suc.IH [OF this(1)] show ?thesis by (meson le_SucI)
  qed
qed

lemma match_ManyD:
  "match_here (Many a n # its) pos rest mk = Some r \<Longrightarrow>
   \<exists>k. n \<le> k \<and> k \<le> length rest \<and> (\<forall>c \<in> set (take k rest). atom_ok a c) \<and>
       rest = take k rest @ drop k rest \<and>
       match_here its (pos + k) (drop k rest) mk = Some r"
proof -
  assume "match_here (Many a n # its) pos rest mk = Some r"
  then have "give_back its pos rest mk n (length (takeWhile (atom_ok a) rest)) = Some r" by simp
  from give_backD [OF this] obtain k where "n \<le> k" "k \<le> length (takeWhile (atom_ok a) rest)"
    "match_here its (pos + k) (drop k rest) mk = Some r" by blast
  with take_run [OF this(2)] run_le_length [OF this(2)] show ?thesis by auto
qed

lemma match_OneD:
  "match_here (One a # its) pos rest mk = Some r \<Longrightarrow>
   \<exists>c cs. rest = c # cs \<and> atom_ok a c \<and> match_here its (Suc pos) cs mk = Some r"
  by (cases rest) (auto split: if_splits)

lemma search_fromD:
  "search_from items s rest = Some m \<Longrightarrow>
   \<exists>i. i \<le> length rest \<and> m_start m = s + i \<and>
       match_here items (s + i) (drop i rest) (\<lambda>_. 0) = Some (m_marks m, m_end m)"
proof (induction rest arbitrary: s)
  case Nil
  then show ?case by (auto split: option.splits)
next
  case (Cons c cs)
  show ?case
  proof (cases "match_here items s (c # cs) (\<lambda>_. 0)")
    case (Some r)
    with Cons.prems have "m_start m = s" "r = (m_marks m, m_end m)"
      by (auto split: prod.splits)
    with Some show ?thesis by (intro exI [of _ 0]) simp
  next
    case None
    with Cons.prems have "search_from items (Suc s) cs = Some m" by simp
    from Cons.IH [OF this] obtain i where "i \<le> length cs" "m_start m = Suc s + i"
      "match_here items (Suc s + i) (drop i cs) (\<lambda>_. 0) = Some (m_marks m, m_end m)" by blast
    then show ?thesis by (intro exI [of _ "Suc i"]) simp
  qed
qed

section \<open>The shape of a credential match\<close>

lemma cred_match_structure:
  assumes "match_here CRED_PATTERN s rest mk = Some (mk', e)"
  shows "\<exists>u v w p tail.
           rest = u @ CHR ''@'' # v @ CHR ''.'' # w @ CHR '':'' # p @ tail \<and>
           u \<noteq> [] \<and> v \<noteq> [] \<and> 2 \<le> length w \<and> p \<noteq> [] \<and>
           (\<forall>c \<in> set u. email_char c) \<and> (\<forall>c \<in> set v. email_char c) \<and>
           (\<forall>c \<in> set w. letter c) \<and> (\<forall>c \<in> set p. c \<noteq> CHR 0x0A) \<and>
           (tail = [] \<or> tail = [CHR 0x0A]) \<and>
           mk' 0 = s \<and> mk' 1 = s + length (u @ CHR ''@'' # v @ CHR ''.'' # w) \<and>
           mk' 2 = Suc (mk' 1) \<and> mk' 3 = mk' 2 + length p \<and> e = mk' 3"
proof -
  let ?A = "NotInSet [SChar CHR ''/'', SChar CHR '':'', SSpace]"
  let ?L = "InSet [SRange CHR ''a'' CHR ''z'', SRange CHR ''A'' CHR ''Z'']"
  let ?i6 = "[Eol]"
  let ?i5 = "Many Dot 1 # Mark 3 # ?i6"
  let ?i4 = "One (Lit CHR '':'') # Mark 2 # ?i5"
  let ?i3 = "Many ?L 2 # Mark 1 # ?i4"
  let ?i2 = "One (Lit CHR ''.'') # ?i3"
  let ?i1 = "Many ?A 1 # ?i2"
  let ?i0 = "One (Lit CHR ''@'') # ?i1"
  have A: "atom_ok ?A c = email_char c" for c by (simp add: email_char_def)
  have L: "atom_ok ?L c = letter c" for c by (simp add: letter_def)
  from assms have "match_here (Many ?A 1 # ?i0) s rest (mk(0 := s)) = Some (mk', e)"
    by (simp add: CRED_PATTERN_def del: match_here.simps(2,3,5))
  from match_ManyD [OF this] obtain k1 where k1: "1 \<le> k1" "k1 \<le> length rest"
    and u: "\<forall>c \<in> set (take k1 rest). email_char c"
    and r0: "rest = take k1 rest @ drop k1 rest"
    and m0: "match_here ?i0 (s + k1) (drop k1 rest) (mk(0 := s)) = Some (mk', e)"
    unfolding A by blast
  from match_OneD [OF m0] obtain r1 where r1: "drop k1 rest = CHR ''@'' # r1"
    and m1: "match_here ?i1 (Suc (s + k1)) r1 (mk(0 := s)) = Some (mk', e)"
    by auto
  from match_ManyD [OF m1] obtain k2 where k2: "1 \<le> k2" "k2 \<le> length r1"
    and v: "\<forall>c \<in> set (take k2 r1). email_char c"
    and r1s: "r1 = take k2 r1 @ drop k2 r1"
    and m2: "match_here ?i2 (Suc (s + k1) + k2) (drop k2 r1) (mk(0 := s)) = Some (mk', e)"
    unfolding A by blast
  from match_OneD [OF m2] obtain r2 where r2: "drop k2 r1 = CHR ''.'' # r2"
    and m3: "match_here ?i3 (Suc (Suc (s + k1) + k2)) r2 (mk(0 := s)) = Some (mk', e)"
    by auto
  from match_ManyD [OF m3] obtain k3 where k3: "2 \<le> k3" "k3 \<le> length r2"
    and w: "\<forall>c \<in> set (take k3 r2). letter c"
    and r2s: "r2 = take k3 r2 @ drop k3 r2"
    and m4': "match_here (Mark 1 # ?i4) (Suc (Suc (s + k1) + k2) + k3) (drop k3 r2) (mk(0 := s))
               = Some (mk', e)"
    unfolding L by blast
  define p1 where "p1 = Suc (Suc (s + k1) + k2) + k3"
  from m4' have m4: "match_here ?i4 p1 (drop k3 r2) (mk(0 := s, 1 := p1)) = Some (mk', e)"
    by (simp add: p1_def del: match_here.simps(2,3,5))
  from match_OneD [OF m4] obtain r3 where r3: "drop k3 r2 = CHR '':'' # r3"
    and m5': "match_here (Mark 2 # ?i5) (Suc p1) r3 (mk(0 := s, 1 := p1)) = Some (mk', e)"
    by auto
  from m5' have m5: "match_here ?i5 (Suc p1) r3 (mk(0 := s, 1 := p1, 2 := Suc p1)) = Some (mk', e)"
    by (simp del: match_here.simps(2,3,5))
  from match_ManyD [OF m5] obtain k4 where k4: "1 \<le> k4" "k4 \<le> length r3"
    and p: "\<forall>c \<in> set (take k4 r3). atom_ok Dot c"
    and r3s: "r3 = take k4 r3 @ drop k4 r3"
    and m6': "match_here (Mark 3 # ?i6) (Suc p1 + k4) (drop k4 r3) (mk(0 := s, 1 := p1, 2 := Suc p1))
               = Some (mk', e)"
    by blast
  from m6' have tail: "drop k4 r3 = [] \<or> drop k4 r3 = [CHR 0x0A]"
    and res: "mk' = mk(0 := s, 1 := p1, 2 := Suc p1, 3 := Suc p1 + k4)" "e = Suc p1 + k4"
    by (auto split: if_splits)
  let ?u = "take k1 rest" and ?v = "take k2 r1" and ?w = "take k3 r2" and ?p = "take k4 r3"
  have "rest = ?u @ CHR ''@'' # ?v @ CHR ''.'' # ?w @ CHR '':'' # ?p @ drop k4 r3"
    using r0 r1 r1s r2 r2s r3 r3s by metis
  moreover have "?u \<noteq> []" "?v \<noteq> []" "2 \<le> length ?w" "?p \<noteq> []"
    using k1 k2 k3 k4 by auto
  moreover have "\<forall>c \<in> set ?p. c \<noteq> CHR 0x0A" using p by simp
  moreover have "mk' 0 = s" "mk' 1 = s + length (?u @ CHR ''@'' # ?v @ CHR ''.'' # ?w)"
    "mk' 2 = Suc (mk' 1)" "mk' 3 = mk' 2 + length ?p" "e = mk' 3"
    using k1 k2 k3 k4 by (simp_all add: res p1_def min_def)
  ultimately show ?thesis using u v w tail by blast
qed


lemma letter_email_char: "letter c \<Longrightarrow> email_char c"
  by (auto simp: letter_def email_char_def isspace_def)

lemma slice_middle: "slice (xs @ ys @ zs) (length xs) (length xs + length ys) = ys"
  by (simp add: slice_def)

lemma group_of_1: "group_of line m 1 = slice line (m_marks m 0) (m_marks m 1)"
  by (simp add: group_of_def)

lemma group_of_2: "group_of line m 2 = slice line (m_marks m 2) (m_marks m 3)"
  by (simp add: group_of_def)

lemma group_of_0: "group_of line m 0 = slice line (m_start m) (m_end m)"
  by (simp add: group_of_def)

lemma cred_search_structure:
  assumes "re_search CRED_PATTERN line = Some m"
  shows "\<exists>pre u v w p tail.
           line = pre @ (u @ CHR ''@'' # v @ CHR ''.'' # w) @ CHR '':'' # p @ tail \<and>
           (u \<noteq> [] \<and> v \<noteq> [] \<and> 2 \<le> length w \<and> p \<noteq> []) \<and>
           ((\<forall>c \<in> set u. email_char c) \<and> (\<forall>c \<in> set v. email_char c) \<and>
            (\<forall>c \<in> set w. letter c) \<and> (\<forall>c \<in> set p. c \<noteq> CHR 0x0A) \<and>
            (tail = [] \<or> tail = [CHR 0x0A])) \<and>
           m_start m = length pre \<and>
           group_of line m 1 = u @ CHR ''@'' # v @ CHR ''.'' # w \<and>
           group_of line m 2 = p \<and>
           group_of line m 0 = (u @ CHR ''@'' # v @ CHR ''.'' # w) @ CHR '':'' # p"
proof -
  from assms have "search_from CRED_PATTERN 0 line = Some m" by (simp add: re_search_def)
  from search_fromD [OF this] obtain i where i: "i \<le> length line" "m_start m = i"
    and mh: "match_here CRED_PATTERN i (drop i line) (\<lambda>_. 0) = Some (m_marks m, m_end m)"
    by auto
  from cred_match_structure [OF mh] obtain u v w p tail where
    d: "drop i line = u @ CHR ''@'' # v @ CHR ''.'' # w @ CHR '':'' # p @ tail"
    and ne: "u \<noteq> [] \<and> v \<noteq> [] \<and> 2 \<le> length w \<and> p \<noteq> []"
    and cl: "(\<forall>c \<in> set u. email_char c) \<and> (\<forall>c \<in> set v. email_char c) \<and>
      (\<forall>c \<in> set w. letter c) \<and> (\<forall>c \<in> set p. c \<noteq> CHR 0x0A) \<and> (tail = [] \<or> tail = [CHR 0x0A])"
    and mk: "m_marks m 0 = i" "m_marks m 1 = i + length (u @ CHR ''@'' # v @ CHR ''.'' # w)"
      "m_marks m 2 = Suc (m_marks m 1)" "m_marks m 3 = m_marks m 2 + length p"
      "m_end m = m_marks m 3"
    by blast
  define g where "g = u @ CHR ''@'' # v @ CHR ''.'' # w"
  define pre where "pre = take i line"
  have len: "m_start m = length pre" using i by (simp add: pre_def)
  have d': "drop i line = g @ CHR '':'' # p @ tail" using d by (simp add: g_def)
  have "line = pre @ drop i line" by (simp add: pre_def)
  then have line: "line = pre @ g @ CHR '':'' # p @ tail" using d' by simp
  have "drop (Suc (i + length g)) line = drop (Suc (length g)) (drop i line)"
    by (simp add: add.commute)
  then have d2: "drop (Suc (i + length g)) line = p @ tail" unfolding d' by simp
  note mk' = mk [folded g_def]
  have g1: "group_of line m 1 = g"
    unfolding group_of_1 mk' slice_def d' by simp
  have g2: "group_of line m 2 = p"
    unfolding group_of_2 mk' slice_def d2 by simp
  have g0: "group_of line m 0 = g @ CHR '':'' # p"
    unfolding group_of_0 i mk' slice_def d' by simp
  show ?thesis
    apply (rule exI [of _ pre], rule exI [of _ u], rule exI [of _ v], rule exI [of _ w],
           rule exI [of _ p], rule exI [of _ tail])
    using line ne cl len g1 g2 g0 unfolding g_def by simp
qed

text \<open>
  C3, as the code has it. For every text in which \<open>CRED_PATTERN\<close> is found: group 1 holds
  at least one \<open>@\<close> and no colon, slash or whitespace character, group 2 is not empty, and
  the whole match is group 1, a colon and group 2, which is the dedup key of the pair.
\<close>

theorem cred_match_groups:
  "re_search CRED_PATTERN line = Some m \<Longrightarrow>
     1 \<le> count_list (group_of line m 1) CHR ''@'' \<and>
     (\<forall>c \<in> set (group_of line m 1). c \<noteq> CHR '':'' \<and> c \<noteq> CHR ''/'' \<and> \<not> isspace c) \<and>
     group_of line m 2 \<noteq> [] \<and>
     group_of line m 0 = cred_key (group_of line m 1) (group_of line m 2)"
proof -
  assume "re_search CRED_PATTERN line = Some m"
  from cred_search_structure [OF this] obtain u v w p where
    g1: "group_of line m 1 = u @ CHR ''@'' # v @ CHR ''.'' # w"
    and g2: "group_of line m 2 = p" and p: "p \<noteq> []"
    and g0: "group_of line m 0 = (u @ CHR ''@'' # v @ CHR ''.'' # w) @ CHR '':'' # p"
    and u: "\<forall>c \<in> set u. email_char c" and v: "\<forall>c \<in> set v. email_char c"
    and w: "\<forall>c \<in> set w. letter c"
    by blast
  have at: "1 \<le> count_list (group_of line m 1) CHR ''@''"
    unfolding g1 by simp
  have sp: "email_char CHR ''@''" "email_char CHR ''.''"
    by (simp_all add: email_char_def isspace_def)
  from w have w': "\<forall>c \<in> set w. email_char c" by (blast dest: letter_email_char)
  have "\<forall>c \<in> set (group_of line m 1). email_char c"
    unfolding g1 using u v w' sp by auto
  then have cls: "\<forall>c \<in> set (group_of line m 1). c \<noteq> CHR '':'' \<and> c \<noteq> CHR ''/'' \<and> \<not> isspace c"
    unfolding email_char_def by blast
  have ne: "group_of line m 2 \<noteq> []" unfolding g2 by (rule p)
  have key: "group_of line m 0 = cred_key (group_of line m 1) (group_of line m 2)"
    unfolding g0 g1 g2 cred_key_def by simp
  from at cls ne key show ?thesis by (intro conjI)
qed

theorem cred_match_groups_witness:
  "re_search CRED_PATTERN ''x a@b.cc:p:q'' \<noteq> None \<and>
   group_of ''x a@b.cc:p:q'' (the (re_search CRED_PATTERN ''x a@b.cc:p:q'')) 1 = ''a@b.cc'' \<and>
   group_of ''x a@b.cc:p:q'' (the (re_search CRED_PATTERN ''x a@b.cc:p:q'')) 2 = ''p:q'' \<and>
   1 \<le> count_list (group_of ''x a@b.cc:p:q'' (the (re_search CRED_PATTERN ''x a@b.cc:p:q'')) 1) CHR ''@'' \<and>
   group_of ''x a@b.cc:p:q'' (the (re_search CRED_PATTERN ''x a@b.cc:p:q'')) 2 \<noteq> []"
proof -
  have ne: "re_search CRED_PATTERN ''x a@b.cc:p:q'' \<noteq> None" by code_simp
  then have h: "re_search CRED_PATTERN ''x a@b.cc:p:q''
                  = Some (the (re_search CRED_PATTERN ''x a@b.cc:p:q''))" by simp
  have g1: "group_of ''x a@b.cc:p:q'' (the (re_search CRED_PATTERN ''x a@b.cc:p:q'')) 1 = ''a@b.cc''"
    by code_simp
  have g2: "group_of ''x a@b.cc:p:q'' (the (re_search CRED_PATTERN ''x a@b.cc:p:q'')) 2 = ''p:q''"
    by code_simp
  from cred_match_groups [OF h]
  have "1 \<le> count_list (group_of ''x a@b.cc:p:q'' (the (re_search CRED_PATTERN ''x a@b.cc:p:q'')) 1) CHR ''@''"
    and "group_of ''x a@b.cc:p:q'' (the (re_search CRED_PATTERN ''x a@b.cc:p:q'')) 2 \<noteq> []"
    by blast+
  with ne g1 g2 show ?thesis by (intro conjI)
qed

text \<open>
  C3 as stated fails: the classes around the \<open>@\<close> of the pattern admit \<open>@\<close> themselves, and
  the email captured from this line holds two.
\<close>

theorem email_with_two_ats:
  "map_option (\<lambda>m. (group_of ''a@b@c.com:pw'' m 1, group_of ''a@b@c.com:pw'' m 2))
     (re_search CRED_PATTERN ''a@b@c.com:pw'') = Some (''a@b@c.com'', ''pw'') \<and>
   count_list ''a@b@c.com'' CHR ''@'' = 2"
  by code_simp

section \<open>The scenario of the specification\<close>

text \<open>
  C4. The line \<open>https://site.example/login:user@corp.example:Sup3rSecret!\<close> with the target
  \<open>corp.example\<close>, in a document named \<open>src\<close>: the line yields the record with the url,
  the email and the password of the scenario, and a document that consists of this line,
  processed from the empty store, leaves exactly this one record in \<open>new_creds\<close>.
\<close>

theorem scenario_record:
  "candidate_of ''corp.example'' src ''https://site.example/login:user@corp.example:Sup3rSecret!''
     = Candidate \<lparr>url = ''https://site.example/login'', email = ''user@corp.example'',
                   password = ''Sup3rSecret!'', source = src,
                   raw = ''https://site.example/login:user@corp.example:Sup3rSecret!''\<rparr> \<and>
   new_creds (fold (process_line ''corp.example'' src)
                (split_nl ''https://site.example/login:user@corp.example:Sup3rSecret!'') init_state)
     = [\<lparr>url = ''https://site.example/login'', email = ''user@corp.example'',
         password = ''Sup3rSecret!'', source = src,
         raw = ''https://site.example/login:user@corp.example:Sup3rSecret!''\<rparr>]"
  by code_simp

end
